theory Spec2Isabelle
  imports Complex_Main "HOL-Library.Monad_Syntax"
begin

section \<open>Data model of the diagram service\<close>

text \<open>
  The entity diagram service (\<^verbatim>\<open>DiagramService\<close>) holds a list of nodes, a list of
  edges, the selected node id, the highlighted path and the sandbox snapshot. Its view
  flags (view mode, colouring mode, overlay, filters, capture requests) are read and
  written by none of the operations below and are left out.

  A number of the platform is a double: a finite value, one of the two infinities, or
  NaN. A finite double is given by the rational it denotes (the two zeros are not told
  apart). The arithmetic on doubles rounds and overflows; it is not defined here but
  taken as a parameter, the \<open>platform\<close>, together with the text the platform writes
  for a number. What is proved for every platform holds for the double arithmetic of
  the code. A number field holds a double or, after a copy through JSON, null.

  A node has the fields of \<^verbatim>\<open>NodeSchema\<close>, the \<^verbatim>\<open>dimension\<close> the service writes for the
  graph library, and the two fields a flat entity carries besides
  (\<^verbatim>\<open>parentId\<close>, \<^verbatim>\<open>ownershipPercentage\<close>), which \<^verbatim>\<open>loadFlatEntityList\<close> copies into the
  node with \<^verbatim>\<open>...ent\<close>. An optional field that is absent (\<^verbatim>\<open>undefined\<close>) is \<open>None\<close>.
\<close>

datatype double = Finite rat | PosInfinity | NegInfinity | NaN

datatype number_value = Num double | Null

abbreviation fin :: "rat \<Rightarrow> number_value" where
  "fin q \<equiv> Num (Finite q)"

record platform =
  dmul :: "double \<Rightarrow> double \<Rightarrow> double"
  ddiv :: "double \<Rightarrow> double \<Rightarrow> double"
  dadd :: "double \<Rightarrow> double \<Rightarrow> double"
  dtext :: "double \<Rightarrow> string"

datatype status_enum = Active | Liquidation | Acquisition

datatype pillar_two_enum = In_Scope | Excluded | Safe_Harbor | Pending | Not_Applicable

record node =
  id_n :: string
  label_n :: string
  color :: "string option"
  entityType :: "string option"
  jurisdiction :: "string option"
  taxId :: "string option"
  officers :: "string list option"
  filingDueDate :: "string option"
  isDraft_n :: "bool option"
  taxResidency :: "string option"
  localCurrency :: "string option"
  citRate :: "number_value option"
  effectiveOwnership :: "number_value option"
  status :: "status_enum option"
  region :: "string option"
  pillarTwoStatus :: "pillar_two_enum option"
  dimension :: "(number_value \<times> number_value) option"
  parentId :: "string option"
  ownershipPercentage_n :: "number_value option"

record edge =
  id_e :: string
  source :: string
  target :: string
  label_e :: "string option"
  ownershipPercentage_e :: "number_value option"
  isDraft_e :: "bool option"

record store =
  nodes :: "node list"
  edges :: "edge list"
  selectedNodeId :: "string option"
  highlightedPath :: "string set"
  sandboxMode :: bool
  originalState :: "(node list \<times> edge list) option"

text \<open>
  \<^verbatim>\<open>Partial<DiagramNode>\<close>: an object that assigns some of the fields. It is a list of
  field assignments here; \<^verbatim>\<open>{ ...n, ...partial }\<close> applies them to \<open>n\<close> in order.
\<close>

datatype node_field =
    Set_id string
  | Set_label string
  | Set_color "string option"
  | Set_entityType "string option"
  | Set_jurisdiction "string option"
  | Set_taxId "string option"
  | Set_officers "string list option"
  | Set_filingDueDate "string option"
  | Set_isDraft "bool option"
  | Set_taxResidency "string option"
  | Set_localCurrency "string option"
  | Set_citRate "number_value option"
  | Set_effectiveOwnership "number_value option"
  | Set_status "status_enum option"
  | Set_region "string option"
  | Set_pillarTwoStatus "pillar_two_enum option"
  | Set_dimension "(number_value \<times> number_value) option"

fun assign :: "node_field \<Rightarrow> node \<Rightarrow> node" where
  "assign (Set_id v) n = n\<lparr>id_n := v\<rparr>"
| "assign (Set_label v) n = n\<lparr>label_n := v\<rparr>"
| "assign (Set_color v) n = n\<lparr>color := v\<rparr>"
| "assign (Set_entityType v) n = n\<lparr>entityType := v\<rparr>"
| "assign (Set_jurisdiction v) n = n\<lparr>jurisdiction := v\<rparr>"
| "assign (Set_taxId v) n = n\<lparr>taxId := v\<rparr>"
| "assign (Set_officers v) n = n\<lparr>officers := v\<rparr>"
| "assign (Set_filingDueDate v) n = n\<lparr>filingDueDate := v\<rparr>"
| "assign (Set_isDraft v) n = n\<lparr>isDraft_n := v\<rparr>"
| "assign (Set_taxResidency v) n = n\<lparr>taxResidency := v\<rparr>"
| "assign (Set_localCurrency v) n = n\<lparr>localCurrency := v\<rparr>"
| "assign (Set_citRate v) n = n\<lparr>citRate := v\<rparr>"
| "assign (Set_effectiveOwnership v) n = n\<lparr>effectiveOwnership := v\<rparr>"
| "assign (Set_status v) n = n\<lparr>status := v\<rparr>"
| "assign (Set_region v) n = n\<lparr>region := v\<rparr>"
| "assign (Set_pillarTwoStatus v) n = n\<lparr>pillarTwoStatus := v\<rparr>"
| "assign (Set_dimension v) n = n\<lparr>dimension := v\<rparr>"

definition merge :: "node \<Rightarrow> node_field list \<Rightarrow> node" where
  "merge n partial = fold assign partial n"

section \<open>Node operations and selection\<close>

text \<open>\<^verbatim>\<open>selectedNode\<close>: the first node whose id is the selected id, or null.\<close>

definition selectedNode :: "store \<Rightarrow> node option" where
  "selectedNode st =
     (case selectedNodeId st of
        None \<Rightarrow> None
      | Some i \<Rightarrow> find (\<lambda>n. id_n n = i) (nodes st))"

text \<open>
  \<^verbatim>\<open>updateNode\<close> maps over the nodes and merges \<open>partial\<close> into each node whose id
  matches.
\<close>

definition updateNode :: "string \<Rightarrow> node_field list \<Rightarrow> store \<Rightarrow> store" where
  "updateNode i partial st =
     st\<lparr>nodes := map (\<lambda>n. if id_n n = i then merge n partial else n) (nodes st)\<rparr>"

text \<open>
  \<^verbatim>\<open>addNode\<close> first writes the dimension into the node object it was given, then
  appends that object. The first component of the result is the caller's node after
  the call.
\<close>

definition addNode :: "node \<Rightarrow> store \<Rightarrow> node \<times> store" where
  "addNode n st =
     (let n' = n\<lparr>dimension := Some (fin 200, fin 90)\<rparr>
      in (n', st\<lparr>nodes := nodes st @ [n']\<rparr>))"

definition removeNode :: "string \<Rightarrow> store \<Rightarrow> store" where
  "removeNode i st =
     (let st1 = st\<lparr>nodes := filter (\<lambda>n. id_n n \<noteq> i) (nodes st)\<rparr>;
          st2 = st1\<lparr>edges := filter (\<lambda>e. source e \<noteq> i \<and> target e \<noteq> i) (edges st1)\<rparr>
      in if selectedNodeId st2 = Some i then st2\<lparr>selectedNodeId := None\<rparr> else st2)"

text \<open>
  \<^verbatim>\<open>tracePathToRoot\<close>: the loop over the queue. The arguments are the edges, the queue,
  the visited set and the path built so far; the result is the path when the queue is
  empty.
\<close>

function tracePath :: "edge list \<Rightarrow> string list \<Rightarrow> string set \<Rightarrow> string set \<Rightarrow> string set" where
  "tracePath es [] visited path = path"
| "tracePath es (currentId # queue) visited path =
     (if currentId \<in> visited then tracePath es queue visited path
      else
        (let parentEdges = filter (\<lambda>e. target e = currentId) es
         in tracePath es (queue @ map source parentEdges) (insert currentId visited)
              (insert currentId path \<union> set (map id_e parentEdges))))"
  by pat_completeness auto

termination
proof (relation "measures
    [\<lambda>(es, queue, visited, path). card ((set queue \<union> set (map source es)) - visited),
     \<lambda>(es, queue, visited, path). length queue]", goal_cases)
  case 1
  show ?case by simp
next
  case (2 es currentId queue visited path)
  have "(set queue \<union> set (map source es)) - visited
        \<subseteq> (set (currentId # queue) \<union> set (map source es)) - visited"
    by auto
  then have "card ((set queue \<union> set (map source es)) - visited)
        \<le> card ((set (currentId # queue) \<union> set (map source es)) - visited)"
    by (intro card_mono) auto
  then show ?case by auto
next
  case (3 es currentId queue visited path parentEdges)
  let ?U = "(set (currentId # queue) \<union> set (map source es)) - visited"
  let ?U' = "(set (queue @ map source parentEdges) \<union> set (map source es))
              - insert currentId visited"
  have fin: "finite ?U" by simp
  have sub: "?U' \<subseteq> ?U" using 3 by auto
  have "currentId \<in> ?U" using 3 by simp
  moreover have "currentId \<notin> ?U'" by simp
  ultimately have "?U' \<subset> ?U" using sub by blast
  then have "card ?U' < card ?U" using fin by (rule psubset_card_mono[rotated])
  then show ?case by simp
qed

definition tracePathToRoot :: "string \<Rightarrow> store \<Rightarrow> store" where
  "tracePathToRoot startNodeId st =
     st\<lparr>highlightedPath := tracePath (edges st) [startNodeId] {} {}\<rparr>"

text \<open>
  \<^verbatim>\<open>selectNode\<close>: the test \<^verbatim>\<open>if (id)\<close> is false for null and for the empty string.
\<close>

definition selectNode :: "string option \<Rightarrow> store \<Rightarrow> store" where
  "selectNode i st =
     (let st1 = st\<lparr>selectedNodeId := i\<rparr>
      in case i of
           None \<Rightarrow> st1\<lparr>highlightedPath := {}\<rparr>
         | Some s \<Rightarrow> if s \<noteq> [] then tracePathToRoot s st1 else st1\<lparr>highlightedPath := {}\<rparr>)"

section \<open>Sandbox\<close>









definition commitSandbox :: "store \<Rightarrow> store" where
  "commitSandbox st =
     (if \<not> sandboxMode st then st
      else st\<lparr>nodes := map (\<lambda>n. n\<lparr>isDraft_n := Some False\<rparr>) (nodes st),
              edges := map (\<lambda>e. e\<lparr>isDraft_e := Some False\<rparr>) (edges st),
              originalState := None,
              sandboxMode := False\<rparr>)"





section \<open>Payloads and the validator\<close>

text \<open>
  A load payload is an untyped value, as \<^verbatim>\<open>JSON.parse\<close> gives it or as a caller builds
  it. An object is a list of key and value pairs in which a key occurs once; a
  property that is missing reads as \<^verbatim>\<open>undefined\<close>, which is \<open>None\<close>.
\<close>

datatype json =
    JNull
  | JBool bool
  | JNum double
  | JStr string
  | JArr "json list"
  | JObj "(string \<times> json) list"

definition property :: "(string \<times> json) list \<Rightarrow> string \<Rightarrow> json option" where
  "property fs k = map_of fs k"

text \<open>
  The schema combinators of the validation library, as the schemas use them. A parse
  gives the typed value, or \<open>None\<close> where \<^verbatim>\<open>safeParse\<close> reports \<^verbatim>\<open>success: false\<close> (the
  list of issues it attaches is only written to the console). \<^verbatim>\<open>z.object\<close> reads the
  declared keys of an object and drops every other key. \<^verbatim>\<open>z.number()\<close> takes a number
  other than NaN, and neither \<^verbatim>\<open>null\<close> nor any other value. (Later versions of the
  library also refuse the infinities; nothing below depends on what is done with an
  infinity in a payload.)
\<close>

fun z_string :: "json \<Rightarrow> string option" where
  "z_string (JStr s) = Some s"
| "z_string _ = None"

fun z_number :: "json \<Rightarrow> number_value option" where
  "z_number (JNum d) = (if d = NaN then None else Some (Num d))"
| "z_number _ = None"

fun z_boolean :: "json \<Rightarrow> bool option" where
  "z_boolean (JBool b) = Some b"
| "z_boolean _ = None"

fun z_array :: "(json \<Rightarrow> 'a option) \<Rightarrow> json \<Rightarrow> 'a list option" where
  "z_array item (JArr xs) = those (map item xs)"
| "z_array item _ = None"

definition required :: "(json \<Rightarrow> 'a option) \<Rightarrow> json option \<Rightarrow> 'a option" where
  "required schema v = (case v of None \<Rightarrow> None | Some j \<Rightarrow> schema j)"

definition optional :: "(json \<Rightarrow> 'a option) \<Rightarrow> json option \<Rightarrow> 'a option option" where
  "optional schema v = (case v of None \<Rightarrow> Some None | Some j \<Rightarrow> map_option Some (schema j))"

definition status_text :: "status_enum \<Rightarrow> string" where
  "status_text s =
     (case s of Active \<Rightarrow> ''Active'' | Liquidation \<Rightarrow> ''Liquidation''
      | Acquisition \<Rightarrow> ''Acquisition'')"

definition pillar_two_text :: "pillar_two_enum \<Rightarrow> string" where
  "pillar_two_text s =
     (case s of In_Scope \<Rightarrow> ''In-Scope'' | Excluded \<Rightarrow> ''Excluded''
      | Safe_Harbor \<Rightarrow> ''Safe-Harbor'' | Pending \<Rightarrow> ''Pending''
      | Not_Applicable \<Rightarrow> ''N/A'')"

definition z_status :: "json \<Rightarrow> status_enum option" where
  "z_status j =
     (case z_string j of
        None \<Rightarrow> None
      | Some s \<Rightarrow> find (\<lambda>v. status_text v = s) [Active, Liquidation, Acquisition])"

definition z_pillar_two :: "json \<Rightarrow> pillar_two_enum option" where
  "z_pillar_two j =
     (case z_string j of
        None \<Rightarrow> None
      | Some s \<Rightarrow>
          find (\<lambda>v. pillar_two_text v = s)
            [In_Scope, Excluded, Safe_Harbor, Pending, Not_Applicable])"

definition NodeSchema :: "json \<Rightarrow> node option" where
  "NodeSchema j =
     (case j of
        JObj fs \<Rightarrow>
          do {
            v_id \<leftarrow> required z_string (property fs ''id'');
            v_label \<leftarrow> required z_string (property fs ''label'');
            v_color \<leftarrow> optional z_string (property fs ''color'');
            v_entityType \<leftarrow> optional z_string (property fs ''entityType'');
            v_jurisdiction \<leftarrow> optional z_string (property fs ''jurisdiction'');
            v_taxId \<leftarrow> optional z_string (property fs ''taxId'');
            v_officers \<leftarrow> optional (z_array z_string) (property fs ''officers'');
            v_filingDueDate \<leftarrow> optional z_string (property fs ''filingDueDate'');
            v_isDraft \<leftarrow> optional z_boolean (property fs ''isDraft'');
            v_taxResidency \<leftarrow> optional z_string (property fs ''taxResidency'');
            v_localCurrency \<leftarrow> optional z_string (property fs ''localCurrency'');
            v_citRate \<leftarrow> optional z_number (property fs ''citRate'');
            v_effectiveOwnership \<leftarrow> optional z_number (property fs ''effectiveOwnership'');
            v_status \<leftarrow> optional z_status (property fs ''status'');
            v_region \<leftarrow> optional z_string (property fs ''region'');
            v_pillarTwoStatus \<leftarrow> optional z_pillar_two (property fs ''pillarTwoStatus'');
            Some \<lparr>id_n = v_id, label_n = v_label, color = v_color,
              entityType = v_entityType, jurisdiction = v_jurisdiction, taxId = v_taxId,
              officers = v_officers, filingDueDate = v_filingDueDate, isDraft_n = v_isDraft,
              taxResidency = v_taxResidency, localCurrency = v_localCurrency,
              citRate = v_citRate, effectiveOwnership = v_effectiveOwnership,
              status = v_status, region = v_region, pillarTwoStatus = v_pillarTwoStatus,
              dimension = None, parentId = None, ownershipPercentage_n = None\<rparr>
          }
      | _ \<Rightarrow> None)"

definition EdgeSchema :: "json \<Rightarrow> edge option" where
  "EdgeSchema j =
     (case j of
        JObj fs \<Rightarrow>
          do {
            v_id \<leftarrow> required z_string (property fs ''id'');
            v_source \<leftarrow> required z_string (property fs ''source'');
            v_target \<leftarrow> required z_string (property fs ''target'');
            v_label \<leftarrow> optional z_string (property fs ''label'');
            v_ownershipPercentage \<leftarrow> optional z_number (property fs ''ownershipPercentage'');
            v_isDraft \<leftarrow> optional z_boolean (property fs ''isDraft'');
            Some \<lparr>id_e = v_id, source = v_source, target = v_target, label_e = v_label,
              ownershipPercentage_e = v_ownershipPercentage, isDraft_e = v_isDraft\<rparr>
          }
      | _ \<Rightarrow> None)"

definition DiagramSchema :: "json \<Rightarrow> (node list \<times> edge list) option" where
  "DiagramSchema j =
     (case j of
        JObj fs \<Rightarrow>
          do {
            v_nodes \<leftarrow> required (z_array NodeSchema) (property fs ''nodes'');
            v_edges \<leftarrow> required (z_array EdgeSchema) (property fs ''edges'');
            Some (v_nodes, v_edges)
          }
      | _ \<Rightarrow> None)"

section \<open>Loading and exporting a diagram\<close>

text \<open>
  \<^verbatim>\<open>loadDiagram\<close> returns nothing; what it shows to the user is the alert, the first
  component of the result here (\<open>None\<close> when no alert is raised). \<^verbatim>\<open>n.label || n.id\<close>
  takes the id when the label is the empty string. No step of the \<^verbatim>\<open>try\<close> block
  throws on a parsed payload, so the \<^verbatim>\<open>catch\<close> branch is never taken.
\<close>

definition loadDiagram :: "json \<Rightarrow> store \<Rightarrow> string option \<times> store" where
  "loadDiagram j st =
     (case DiagramSchema j of
        None \<Rightarrow> (Some ''Invalid JSON format. Please check the console for details.'', st)
      | Some (v_nodes, v_edges) \<Rightarrow>
          (None,
           st\<lparr>nodes :=
                 map (\<lambda>n. n\<lparr>label_n := (if label_n n \<noteq> [] then label_n n else id_n n),
                            dimension := Some (fin 200, fin 90)\<rparr>) v_nodes,
              edges := v_edges,
              selectedNodeId := None,
              highlightedPath := {}\<rparr>))"

text \<open>
  What \<^verbatim>\<open>JSON.stringify\<close> writes for a node and for an edge: every field that is not
  \<^verbatim>\<open>undefined\<close>. It writes a finite number as that number, and \<^verbatim>\<open>null\<close> for an
  infinity, for NaN and for null.
\<close>

definition present :: "(string \<times> json option) list \<Rightarrow> (string \<times> json) list" where
  "present kvs = List.map_filter (\<lambda>(k, v). map_option (Pair k) v) kvs"

fun number_json :: "number_value \<Rightarrow> json" where
  "number_json (Num (Finite q)) = JNum (Finite q)"
| "number_json _ = JNull"

definition dimension_json :: "number_value \<times> number_value \<Rightarrow> json" where
  "dimension_json d =
     JObj [(''width'', number_json (fst d)), (''height'', number_json (snd d))]"

definition node_json :: "node \<Rightarrow> json" where
  "node_json n =
     JObj (present
       [(''id'', Some (JStr (id_n n))),
        (''label'', Some (JStr (label_n n))),
        (''color'', map_option JStr (color n)),
        (''entityType'', map_option JStr (entityType n)),
        (''jurisdiction'', map_option JStr (jurisdiction n)),
        (''taxId'', map_option JStr (taxId n)),
        (''officers'', map_option (\<lambda>xs. JArr (map JStr xs)) (officers n)),
        (''filingDueDate'', map_option JStr (filingDueDate n)),
        (''isDraft'', map_option JBool (isDraft_n n)),
        (''taxResidency'', map_option JStr (taxResidency n)),
        (''localCurrency'', map_option JStr (localCurrency n)),
        (''citRate'', map_option number_json (citRate n)),
        (''effectiveOwnership'', map_option number_json (effectiveOwnership n)),
        (''status'', map_option (\<lambda>s. JStr (status_text s)) (status n)),
        (''region'', map_option JStr (region n)),
        (''pillarTwoStatus'', map_option (\<lambda>s. JStr (pillar_two_text s)) (pillarTwoStatus n)),
        (''dimension'', map_option dimension_json (dimension n)),
        (''parentId'', map_option JStr (parentId n)),
        (''ownershipPercentage'', map_option number_json (ownershipPercentage_n n))])"

definition edge_json :: "edge \<Rightarrow> json" where
  "edge_json e =
     JObj (present
       [(''id'', Some (JStr (id_e e))),
        (''source'', Some (JStr (source e))),
        (''target'', Some (JStr (target e))),
        (''label'', map_option JStr (label_e e)),
        (''ownershipPercentage'', map_option number_json (ownershipPercentage_e e)),
        (''isDraft'', map_option JBool (isDraft_e e))])"

text \<open>
  \<^verbatim>\<open>exportDiagram\<close> returns the text \<^verbatim>\<open>JSON.stringify\<close> writes for the object with the
  nodes and the edges. The text itself is the platform's: the model gives the document
  that the text denotes, which is what \<^verbatim>\<open>JSON.parse\<close> reads back from it. A number
  that is not finite has become \<^verbatim>\<open>null\<close> in it.
\<close>

definition exportDiagram :: "store \<Rightarrow> json" where
  "exportDiagram st =
     JObj [(''nodes'', JArr (map node_json (nodes st))),
           (''edges'', JArr (map edge_json (edges st)))]"

text \<open>
  A node or an edge is exportable when every number field that the schema declares is
  absent or holds a finite number.
\<close>

fun finite_number :: "number_value \<Rightarrow> bool" where
  "finite_number (Num (Finite q)) = True"
| "finite_number (Num PosInfinity) = False"
| "finite_number (Num NegInfinity) = False"
| "finite_number (Num NaN) = False"
| "finite_number Null = False"

definition finite_field :: "number_value option \<Rightarrow> bool" where
  "finite_field x = (case x of None \<Rightarrow> True | Some v \<Rightarrow> finite_number v)"

definition exportable_node :: "node \<Rightarrow> bool" where
  "exportable_node n = (finite_field (citRate n) \<and> finite_field (effectiveOwnership n))"

definition exportable_edge :: "edge \<Rightarrow> bool" where
  "exportable_edge e = finite_field (ownershipPercentage_e e)"

section \<open>Loading a flat entity list\<close>

text \<open>
  A flat entity is an untyped record with the fields of a node, a \<^verbatim>\<open>parentId\<close> and an
  \<^verbatim>\<open>ownershipPercentage\<close>; the node made from it is a copy with the dimension set. An
  entity whose \<^verbatim>\<open>parentId\<close> is present and not the empty string also gives an edge.
  The label of that edge is the template \<^verbatim>\<open>`${ent.ownershipPercentage}%`\<close>.
\<close>

definition flat_node :: "node \<Rightarrow> node" where
  "flat_node ent = ent\<lparr>dimension := Some (fin 220, fin 100)\<rparr>"

definition template_text :: "platform \<Rightarrow> number_value option \<Rightarrow> string" where
  "template_text P x =
     (case x of
        None \<Rightarrow> ''undefined''
      | Some Null \<Rightarrow> ''null''
      | Some (Num d) \<Rightarrow> dtext P d)"

definition flat_edge :: "platform \<Rightarrow> node \<Rightarrow> edge option" where
  "flat_edge P ent =
     (case parentId ent of
        None \<Rightarrow> None
      | Some p \<Rightarrow>
          if p = [] then None
          else Some
            \<lparr>id_e = ''e-'' @ p @ ''-'' @ id_n ent,
             source = p,
             target = id_n ent,
             label_e = Some (template_text P (ownershipPercentage_n ent) @ ''%''),
             ownershipPercentage_e = ownershipPercentage_n ent,
             isDraft_e = None\<rparr>)"

definition flat_nodes :: "node list \<Rightarrow> node list" where
  "flat_nodes entities = map flat_node entities"

definition flat_edges :: "platform \<Rightarrow> node list \<Rightarrow> edge list" where
  "flat_edges P entities = List.map_filter (flat_edge P) entities"

text \<open>
  \<^verbatim>\<open>x || 0\<close> on a number field: 0 when the field is absent, null, NaN or 0, and the
  number otherwise.
\<close>

fun or_zero :: "number_value option \<Rightarrow> double" where
  "or_zero (Some (Num NaN)) = Finite 0"
| "or_zero (Some (Num d)) = d"
| "or_zero _ = Finite 0"

text \<open>
  \<^verbatim>\<open>nodes.find(n => n.id === id)\<close> gives the first node with the id, and the
  assignment to its \<^verbatim>\<open>effectiveOwnership\<close> changes that node in the list.
\<close>

fun add_to_first :: "platform \<Rightarrow> string \<Rightarrow> double \<Rightarrow> node list \<Rightarrow> node list" where
  "add_to_first P i v [] = []"
| "add_to_first P i v (n # ns) =
     (if id_n n = i
      then n\<lparr>effectiveOwnership := Some (Num (dadd P (or_zero (effectiveOwnership n)) v))\<rparr> # ns
      else n # add_to_first P i v ns)"

text \<open>
  \<^verbatim>\<open>forEach\<close> with a body that changes the node list and may fail to return.
\<close>

fun forEach :: "('a \<Rightarrow> 's \<Rightarrow> 's option) \<Rightarrow> 'a list \<Rightarrow> 's \<Rightarrow> 's option" where
  "forEach body [] s = Some s"
| "forEach body (x # xs) s =
     (case body x s of None \<Rightarrow> None | Some s' \<Rightarrow> forEach body xs s')"

text \<open>
  \<^verbatim>\<open>propagateOwnership\<close> calls itself for every child edge and has no guard against a
  cycle. The depth argument bounds the depth of the nested calls; the result is \<open>None\<close>
  when the recursion goes deeper than that, and the node list after the call otherwise.
\<close>

fun propagateOwnership ::
  "platform \<Rightarrow> nat \<Rightarrow> string \<Rightarrow> double \<Rightarrow> edge list \<Rightarrow> node list \<Rightarrow> node list option" where
  "propagateOwnership P 0 pid parentEffective es ns = None"
| "propagateOwnership P (Suc depth) pid parentEffective es ns =
     forEach
       (\<lambda>edge ns.
          case find (\<lambda>n. id_n n = target edge) ns of
            None \<Rightarrow> Some ns
          | Some childNode \<Rightarrow>
              (let directStake = or_zero (ownershipPercentage_e edge);
                   effectiveStake = ddiv P (dmul P parentEffective directStake) (Finite 100)
               in propagateOwnership P depth (id_n childNode) effectiveStake es
                    (add_to_first P (target edge) effectiveStake ns)))
       (filter (\<lambda>e. source e = pid) es) ns"

text \<open>
  \<^verbatim>\<open>calculateEffectiveOwnership\<close>: \<^verbatim>\<open>roots\<close> holds the root objects themselves; an object
  is its position in the node list here.
\<close>

definition root_positions :: "node list \<Rightarrow> edge list \<Rightarrow> nat list" where
  "root_positions ns es =
     filter (\<lambda>i. \<not> list_ex (\<lambda>e. target e = id_n (ns ! i)) es) [0..<length ns]"

definition calculateEffectiveOwnership ::
  "platform \<Rightarrow> nat \<Rightarrow> node list \<Rightarrow> edge list \<Rightarrow> node list option" where
  "calculateEffectiveOwnership P depth ns es =
     forEach
       (\<lambda>i ns. propagateOwnership P depth (id_n (ns ! i)) (Finite 100) es
                 (ns[i := (ns ! i)\<lparr>effectiveOwnership := Some (fin 100)\<rparr>]))
       (root_positions ns es) ns"

definition loadFlatEntityList :: "platform \<Rightarrow> nat \<Rightarrow> node list \<Rightarrow> store \<Rightarrow> store option" where
  "loadFlatEntityList P depth entities st =
     (let ns = flat_nodes entities;
          es = flat_edges P entities
      in case calculateEffectiveOwnership P depth ns es of
           None \<Rightarrow> None
         | Some ns' \<Rightarrow> Some (st\<lparr>nodes := ns', edges := es\<rparr>))"

section \<open>Ownership along paths\<close>

text \<open>
  The stake of an edge is its ownership percentage, read with \<^verbatim>\<open>|| 0\<close>: 0 when it is
  absent. A path from an identifier is a non-empty sequence of edges, the first
  leaving the identifier and each next one leaving the target of the one before.
  \<open>paths_from es k x\<close> lists the paths from \<open>x\<close> of at most \<open>k\<close> edges, those through
  an earlier edge first and a path before its extensions; in an acyclic edge list no
  path has more edges than the list. A root is a node that no edge targets; the paths
  from the roots are listed root by root in the order of the nodes, once for every
  root node.
\<close>

definition stake :: "edge \<Rightarrow> double" where
  "stake e = or_zero (ownershipPercentage_e e)"

fun is_path :: "string \<Rightarrow> edge list \<Rightarrow> bool" where
  "is_path x [] = True"
| "is_path x (e # p) = (source e = x \<and> is_path (target e) p)"

fun paths_from :: "edge list \<Rightarrow> nat \<Rightarrow> string \<Rightarrow> edge list list" where
  "paths_from es 0 x = []"
| "paths_from es (Suc k) x =
     concat (map (\<lambda>e. [e] # map ((#) e) (paths_from es k (target e)))
                 (filter (\<lambda>e. source e = x) es))"

definition is_root :: "edge list \<Rightarrow> node \<Rightarrow> bool" where
  "is_root es n = (\<not> list_ex (\<lambda>e. target e = id_n n) es)"

definition root_paths :: "node list \<Rightarrow> edge list \<Rightarrow> edge list list" where
  "root_paths ns es =
     concat (map (\<lambda>r. paths_from es (length es) (id_n r)) (filter (is_root es) ns))"

definition paths_to :: "node list \<Rightarrow> edge list \<Rightarrow> string \<Rightarrow> edge list list" where
  "paths_to ns es y = filter (\<lambda>p. target (last p) = y) (root_paths ns es)"

text \<open>
  The share of a path is what 100 becomes along it: for every edge in turn, the amount
  times the stake, divided by 100, in the arithmetic of the platform. Without rounding
  this is 100 times the product of stake/100 along the path, the \<open>exact_share\<close>.
\<close>

definition along :: "platform \<Rightarrow> edge \<Rightarrow> double \<Rightarrow> double" where
  "along P e a = ddiv P (dmul P a (stake e)) (Finite 100)"

definition path_share :: "platform \<Rightarrow> edge list \<Rightarrow> double" where
  "path_share P p = fold (along P) p (Finite 100)"

fun rational :: "double \<Rightarrow> rat" where
  "rational (Finite q) = q"
| "rational _ = 0"

definition exact_share :: "edge list \<Rightarrow> rat" where
  "exact_share p = 100 * prod_list (map (\<lambda>e. rational (stake e) / 100) p)"

text \<open>
  Adding amounts to an effective ownership one by one, each addition being
  \<^verbatim>\<open>(total || 0) + amount\<close> in the arithmetic of the platform.
\<close>

definition add_up :: "platform \<Rightarrow> double list \<Rightarrow> number_value option \<Rightarrow> number_value option" where
  "add_up P vs carried = fold (\<lambda>v t. Some (Num (dadd P (or_zero t) v))) vs carried"

text \<open>
  The effective ownership by paths of the node at a position of the node list, for
  nodes that come with no effective ownership: 100 for a root; nothing for a node
  that shares its identifier with an earlier node; for any other node the shares of
  the paths that lead to its identifier from the roots, added up in the order of the
  paths, which is nothing when there is no such path.
\<close>

definition ownership_by_paths ::
  "platform \<Rightarrow> node list \<Rightarrow> edge list \<Rightarrow> nat \<Rightarrow> number_value option" where
  "ownership_by_paths P ns es i =
     (if is_root es (ns ! i) then Some (fin 100)
      else if id_n (ns ! i) \<in> set (map id_n (take i ns)) then None
      else add_up P (map (path_share P) (paths_to ns es (id_n (ns ! i)))) None)"

section \<open>Auxiliary notions for the proofs\<close>

text \<open>
  A list of credits pairs an identifier with an amount. Crediting a node adds up, on
  its effective ownership, the amounts listed for its identifier, in their order.
  Crediting a node list credits the first node of every identifier that is not among
  those already seen. The credits along the paths from an identifier give each path's
  end what the amount at the start becomes along the path. Crowning a node gives it
  the effective ownership 100. The last notion is the ownership by paths for nodes
  that may come with an effective ownership.
\<close>

definition credit :: "platform \<Rightarrow> (string \<times> double) list \<Rightarrow> node \<Rightarrow> node" where
  "credit P ds n =
     n\<lparr>effectiveOwnership :=
         add_up P (map snd (filter (\<lambda>d. fst d = id_n n) ds)) (effectiveOwnership n)\<rparr>"

fun credit_firsts ::
  "platform \<Rightarrow> string set \<Rightarrow> (string \<times> double) list \<Rightarrow> node list \<Rightarrow> node list" where
  "credit_firsts P seen ds [] = []"
| "credit_firsts P seen ds (n # ns) =
     (if id_n n \<in> seen then n else credit P ds n)
       # credit_firsts P (insert (id_n n) seen) ds ns"

definition credits_along ::
  "platform \<Rightarrow> edge list \<Rightarrow> nat \<Rightarrow> string \<Rightarrow> double \<Rightarrow> (string \<times> double) list" where
  "credits_along P es k x a =
     map (\<lambda>p. (target (last p), fold (along P) p a)) (paths_from es k x)"

definition crown :: "node \<Rightarrow> node" where
  "crown n = n\<lparr>effectiveOwnership := Some (fin 100)\<rparr>"

definition ownership_after ::
  "platform \<Rightarrow> node list \<Rightarrow> edge list \<Rightarrow> nat \<Rightarrow> number_value option" where
  "ownership_after P ns es i =
     (if is_root es (ns ! i) then Some (fin 100)
      else if id_n (ns ! i) \<in> set (map id_n (take i ns)) then effectiveOwnership (ns ! i)
      else add_up P (map (path_share P) (paths_to ns es (id_n (ns ! i))))
             (effectiveOwnership (ns ! i)))"

section \<open>Graph notions used in the statements\<close>

text \<open>
  The edges as a relation from source to target; the identifiers from which a set of
  identifiers can be reached along edges (each identifier reaches itself); and the
  identifiers of the edges whose target lies in a set.
\<close>

definition edge_rel :: "edge list \<Rightarrow> (string \<times> string) set" where
  "edge_rel es = set (map (\<lambda>e. (source e, target e)) es)"

definition ancestors :: "edge list \<Rightarrow> string set \<Rightarrow> string set" where
  "ancestors es S = {x. \<exists>y \<in> S. (x, y) \<in> (edge_rel es)\<^sup>*}"

definition edges_into :: "edge list \<Rightarrow> string set \<Rightarrow> string set" where
  "edges_into es S = id_e ` {e \<in> set es. target e \<in> S}"

section \<open>Example data\<close>

text \<open>A node and an edge with every optional field absent.\<close>

definition plain_node :: "string \<Rightarrow> string \<Rightarrow> node" where
  "plain_node i l =
     \<lparr>id_n = i, label_n = l, color = None, entityType = None, jurisdiction = None,
      taxId = None, officers = None, filingDueDate = None, isDraft_n = None,
      taxResidency = None, localCurrency = None, citRate = None,
      effectiveOwnership = None, status = None, region = None, pillarTwoStatus = None,
      dimension = None, parentId = None, ownershipPercentage_n = None\<rparr>"

definition plain_edge :: "string \<Rightarrow> string \<Rightarrow> string \<Rightarrow> edge" where
  "plain_edge i s t =
     \<lparr>id_e = i, source = s, target = t, label_e = None, ownershipPercentage_e = None,
      isDraft_e = None\<rparr>"

text \<open>Nodes A, B, C with the edges e1 from A to B and e2 from B to C.\<close>

definition chain_store :: store where
  "chain_store =
     \<lparr>nodes = [plain_node ''A'' ''A'', plain_node ''B'' ''B'', plain_node ''C'' ''C''],
      edges = [plain_edge ''e1'' ''A'' ''B'', plain_edge ''e2'' ''B'' ''C''],
      selectedNodeId = None, highlightedPath = {}, sandboxMode = False,
      originalState = None\<rparr>"

text \<open>A store whose only node has the empty string as its identifier.\<close>

definition anonymous_store :: store where
  "anonymous_store =
     \<lparr>nodes = [plain_node [] ''unnamed''], edges = [],
      selectedNodeId = None, highlightedPath = {}, sandboxMode = False,
      originalState = None\<rparr>"

text \<open>A payload in which two nodes have the identifier A.\<close>

definition duplicate_payload :: json where
  "duplicate_payload =
     JObj [(''nodes'', JArr [JObj [(''id'', JStr ''A''), (''label'', JStr ''first'')],
                             JObj [(''id'', JStr ''A''), (''label'', JStr ''second'')]]),
           (''edges'', JArr [])]"

text \<open>A payload whose second node has no label.\<close>

definition invalid_payload :: json where
  "invalid_payload =
     JObj [(''nodes'', JArr [JObj [(''id'', JStr ''N''), (''label'', JStr ''new'')],
                             JObj [(''id'', JStr ''M'')]]),
           (''edges'', JArr [])]"

text \<open>A store whose only node has the identifier A and the empty string as label.\<close>

definition unlabelled_store :: store where
  "unlabelled_store =
     \<lparr>nodes = [plain_node ''A'' []], edges = [],
      selectedNodeId = None, highlightedPath = {}, sandboxMode = False,
      originalState = None\<rparr>"

text \<open>
  A store in Live mode whose only node has an infinite effective ownership, as a
  product that overflows leaves it.
\<close>

definition overflown_store :: store where
  "overflown_store =
     \<lparr>nodes = [(plain_node ''A'' ''A'')\<lparr>effectiveOwnership := Some (Num PosInfinity)\<rparr>],
      edges = [],
      selectedNodeId = None, highlightedPath = {}, sandboxMode = False,
      originalState = None\<rparr>"

text \<open>
  Flat entities: an entity without parent, and an entity held by a parent with a
  percentage.
\<close>

definition top_entity :: "string \<Rightarrow> node" where
  "top_entity i = plain_node i i"

definition held_entity :: "string \<Rightarrow> string \<Rightarrow> rat \<Rightarrow> node" where
  "held_entity i p q =
     (plain_node i i)\<lparr>parentId := Some p, ownershipPercentage_n := Some (fin q)\<rparr>"

text \<open>
  An arithmetic without rounding on finite numbers, for the examples below. The double
  arithmetic of the code gives the same results wherever the operands and the results
  without rounding are doubles, as they are for the small whole numbers of the
  examples; where an operand is not finite or a divisor is 0 this arithmetic gives
  NaN, a case the examples do not reach. Every percentage in the examples is 50, the
  text written for a number here.
\<close>

definition unrounded :: "(rat \<Rightarrow> rat \<Rightarrow> rat) \<Rightarrow> double \<Rightarrow> double \<Rightarrow> double" where
  "unrounded f a b =
     (case a of
        Finite x \<Rightarrow> (case b of Finite y \<Rightarrow> Finite (f x y) | _ \<Rightarrow> NaN)
      | _ \<Rightarrow> NaN)"

definition whole_numbers :: platform where
  "whole_numbers =
     \<lparr>dmul = unrounded (\<lambda>x y. x * y),
      ddiv = (\<lambda>a b. if b = Finite 0 then NaN else unrounded (\<lambda>x y. x / y) a b),
      dadd = unrounded (\<lambda>x y. x + y),
      dtext = (\<lambda>d. ''50'')\<rparr>"

text \<open>
  A holding list: R holds half of X, X holds half of Y, and Z names a parent Q that is
  not in the list.
\<close>

definition holding_list :: "node list" where
  "holding_list =
     [top_entity ''R'', held_entity ''X'' ''R'' 50, held_entity ''Y'' ''X'' 50,
      held_entity ''Z'' ''Q'' 50]"

text \<open>
  A joint venture in flat form: X is listed twice, once under each of the parents R1
  and R2 with 50 percent; Y names a parent that is not in the list.
\<close>

definition joint_list :: "node list" where
  "joint_list =
     [top_entity ''R1'', top_entity ''R2'', held_entity ''X'' ''R1'' 50,
      held_entity ''X'' ''R2'' 50, held_entity ''Y'' ''Z'' 50]"

text \<open>
  The joint venture with one more entity: W is held by R1 with 50 percent and comes
  with an effective ownership of 7.
\<close>

definition carrying_list :: "node list" where
  "carrying_list =
     joint_list @ [(held_entity ''W'' ''R1'' 50)\<lparr>effectiveOwnership := Some (fin 7)\<rparr>]"

text \<open>The identifier and the effective ownership of every node of a store.\<close>

definition ownerships :: "store \<Rightarrow> (string \<times> number_value option) list" where
  "ownerships st = map (\<lambda>n. (id_n n, effectiveOwnership n)) (nodes st)"

text \<open>
  For every node that is not a root, its identifier and the sum, over the paths that
  lead to it from the roots, of 100 times the product of stake/100 along the path.
\<close>

definition path_sums :: "node list \<Rightarrow> edge list \<Rightarrow> (string \<times> rat) list" where
  "path_sums ns es =
     map (\<lambda>n. (id_n n, sum_list (map exact_share (paths_to ns es (id_n n)))))
       (filter (\<lambda>n. \<not> is_root es n) ns)"

section \<open>Removing and adding nodes\<close>

text \<open>
  C3. After \<^verbatim>\<open>removeNode(i)\<close> the nodes are the old nodes without those whose id is
  \<open>i\<close>, in the old order; the edges are the old edges without those whose source or
  target is \<open>i\<close>; so no node has id \<open>i\<close> and no edge has source or target \<open>i\<close>; the
  selection is cleared if it was \<open>i\<close> and is unchanged otherwise; nothing else changes.
  This holds for every store and every \<open>i\<close>, in particular for an \<open>i\<close> present in it.
\<close>

theorem removeNode_cascade:
  "let st' = removeNode i st in
     nodes st' = filter (\<lambda>n. id_n n \<noteq> i) (nodes st) \<and>
     edges st' = filter (\<lambda>e. source e \<noteq> i \<and> target e \<noteq> i) (edges st) \<and>
     (\<forall>n \<in> set (nodes st'). id_n n \<noteq> i) \<and>
     (\<forall>e \<in> set (edges st'). source e \<noteq> i \<and> target e \<noteq> i) \<and>
     selectedNodeId st' = (if selectedNodeId st = Some i then None else selectedNodeId st) \<and>
     highlightedPath st' = highlightedPath st \<and>
     sandboxMode st' = sandboxMode st \<and>
     originalState st' = originalState st"
  by (simp add: removeNode_def Let_def)

theorem removeNode_cascade_witness:
  "let st' = removeNode ''B'' (chain_store\<lparr>selectedNodeId := Some ''B''\<rparr>) in
     nodes st' = [plain_node ''A'' ''A'', plain_node ''C'' ''C''] \<and>
     edges st' = [] \<and>
     selectedNodeId st' = None"
  using removeNode_cascade [of "''B''" "chain_store\<lparr>selectedNodeId := Some ''B''\<rparr>"]
  by (simp add: Let_def chain_store_def plain_node_def plain_edge_def)

text \<open>
  C10. \<^verbatim>\<open>addNode(n)\<close> appends the node it was given (the same object, whose dimension
  the call has set to 200 by 90 and whose other fields, the id among them, are as
  given) at the end of the node sequence, whatever the ids already stored; edges,
  selection and highlighted path are unchanged. If a stored node already has the id of
  \<open>n\<close>, two nodes share that id afterwards.
\<close>

theorem addNode_appends:
  "let (n', st') = addNode n st in
     n' = n\<lparr>dimension := Some (fin 200, fin 90)\<rparr> \<and>
     id_n n' = id_n n \<and>
     nodes st' = nodes st @ [n'] \<and>
     edges st' = edges st \<and>
     selectedNodeId st' = selectedNodeId st \<and>
     highlightedPath st' = highlightedPath st \<and>
     (id_n n \<in> id_n ` set (nodes st) \<longrightarrow> \<not> distinct (map id_n (nodes st')))"
  by (auto simp add: addNode_def Let_def)

theorem addNode_appends_witness:
  "id_n (plain_node ''A'' ''copy'') \<in> id_n ` set (nodes chain_store) \<and>
   distinct (map id_n (nodes chain_store)) \<and>
   map id_n (nodes (snd (addNode (plain_node ''A'' ''copy'') chain_store)))
     = [''A'', ''B'', ''C'', ''A''] \<and>
   \<not> distinct (map id_n (nodes (snd (addNode (plain_node ''A'' ''copy'') chain_store))))"
  using addNode_appends [of "plain_node ''A'' ''copy''" chain_store]
  by (simp add: addNode_def Let_def chain_store_def plain_node_def)

section \<open>Sandbox round trip\<close>











section \<open>The path tracer\<close>

declare tracePath.simps [simp del]

lemma ancestors_Un: "ancestors es (A \<union> B) = ancestors es A \<union> ancestors es B"
  by (auto simp: ancestors_def)

lemma ancestors_empty: "ancestors es {} = {}"
  by (simp add: ancestors_def)

lemma ancestors_single:
  "ancestors es {c} = insert c (ancestors es (source ` {e \<in> set es. target e = c}))"
proof (rule set_eqI, rule iffI)
  fix x assume "x \<in> ancestors es {c}"
  then have "(x, c) \<in> (edge_rel es)\<^sup>*" by (simp add: ancestors_def)
  then show "x \<in> insert c (ancestors es (source ` {e \<in> set es. target e = c}))"
  proof (cases rule: rtranclE)
    case base
    then show ?thesis by simp
  next
    case (step y)
    from step(2) obtain e where "e \<in> set es" "source e = y" "target e = c"
      by (auto simp: edge_rel_def)
    with step(1) show ?thesis by (auto simp: ancestors_def)
  qed
next
  fix x assume "x \<in> insert c (ancestors es (source ` {e \<in> set es. target e = c}))"
  then consider "x = c" | e where "e \<in> set es" "target e = c" "(x, source e) \<in> (edge_rel es)\<^sup>*"
    by (auto simp: ancestors_def)
  then show "x \<in> ancestors es {c}"
  proof cases
    case 1
    then show ?thesis by (simp add: ancestors_def)
  next
    case 2
    from 2(1,2) have "(source e, c) \<in> edge_rel es" by (force simp: edge_rel_def)
    with 2(3) show ?thesis by (auto simp: ancestors_def)
  qed
qed

text \<open>
  Once every parent of a visited identifier is visited or queued, whatever reaches a
  visited identifier is visited or reaches the queue.
\<close>

lemma closed_visited_ancestors:
  assumes closed: "\<forall>v \<in> V. \<forall>e \<in> set es. target e = v \<longrightarrow> source e \<in> V \<union> Q"
    and xy: "(x, y) \<in> (edge_rel es)\<^sup>*" and y: "y \<in> V"
  shows "x \<in> V \<union> ancestors es Q"
  using xy y
proof (induction rule: converse_rtrancl_induct)
  case base
  then show ?case by simp
next
  case (step a b)
  from step(1) obtain e where e: "e \<in> set es" "source e = a" "target e = b"
    by (auto simp: edge_rel_def)
  from step(3)[OF step(4)] show ?case
  proof
    assume "b \<in> V"
    with closed e have "a \<in> V \<union> Q" by blast
    then show ?thesis by (auto simp: ancestors_def)
  next
    assume "b \<in> ancestors es Q"
    then obtain q where "q \<in> Q" "(b, q) \<in> (edge_rel es)\<^sup>*" by (auto simp: ancestors_def)
    with step(1) have "(a, q) \<in> (edge_rel es)\<^sup>*" by (meson converse_rtrancl_into_rtrancl)
    with \<open>q \<in> Q\<close> show ?thesis by (auto simp: ancestors_def)
  qed
qed

lemma edges_into_insert:
  "edges_into es (insert c A) = set (map id_e (filter (\<lambda>e. target e = c) es)) \<union> edges_into es A"
  by (auto simp: edges_into_def)

text \<open>
  The loop invariant: the loop adds to the path the identifiers that reach the queue
  and are not yet visited, and the edges into them.
\<close>

lemma tracePath_char:
  "\<forall>v \<in> visited. \<forall>e \<in> set es. target e = v \<longrightarrow> source e \<in> visited \<union> set queue \<Longrightarrow>
   tracePath es queue visited path =
     path \<union> (ancestors es (set queue) - visited)
          \<union> edges_into es (ancestors es (set queue) - visited)"
proof (induction es queue visited path rule: tracePath.induct)
  case (1 es visited path)
  show ?case by (simp add: tracePath.simps ancestors_empty edges_into_def)
next
  case (2 es currentId queue visited path)
  show ?case
  proof (cases "currentId \<in> visited")
    case True
    have closed: "\<forall>v \<in> visited. \<forall>e \<in> set es. target e = v \<longrightarrow> source e \<in> visited \<union> set queue"
      using "2.prems" True by auto
    have "ancestors es {currentId} \<subseteq> visited \<union> ancestors es (set queue)"
      using closed_visited_ancestors[OF closed _ True] by (auto simp: ancestors_def)
    then have "ancestors es (set (currentId # queue)) - visited = ancestors es (set queue) - visited"
      using ancestors_Un[of es "{currentId}" "set queue"] by auto
    with "2.IH"(1)[OF True closed] True show ?thesis by (simp add: tracePath.simps)
  next
    case False
    define parentEdges where "parentEdges = filter (\<lambda>e. target e = currentId) es"
    let ?q = "queue @ map source parentEdges"
    let ?V = "insert currentId visited"
    have par: "set (map source parentEdges) = source ` {e \<in> set es. target e = currentId}"
      by (auto simp: parentEdges_def)
    have closed: "\<forall>v \<in> ?V. \<forall>e \<in> set es. target e = v \<longrightarrow> source e \<in> ?V \<union> set ?q"
      using "2.prems" by (auto simp: parentEdges_def)
    have anc: "ancestors es (set (currentId # queue)) = insert currentId (ancestors es (set ?q))"
      using ancestors_Un[of es "{currentId}" "set queue"]
            ancestors_Un[of es "set queue" "set (map source parentEdges)"]
            ancestors_single[of es currentId] par
      by auto
    have N: "ancestors es (set (currentId # queue)) - visited
             = insert currentId (ancestors es (set ?q) - ?V)"
      using False anc by auto
    have "tracePath es (currentId # queue) visited path
          = tracePath es ?q ?V (insert currentId path \<union> set (map id_e parentEdges))"
      using False by (simp add: tracePath.simps parentEdges_def Let_def)
    also have "\<dots> = (insert currentId path \<union> set (map id_e parentEdges))
          \<union> (ancestors es (set ?q) - ?V) \<union> edges_into es (ancestors es (set ?q) - ?V)"
      using "2.IH"(2)[OF False refl closed[unfolded parentEdges_def]]
      by (simp add: parentEdges_def)
    also have "\<dots> = path \<union> (ancestors es (set (currentId # queue)) - visited)
          \<union> edges_into es (ancestors es (set (currentId # queue)) - visited)"
      unfolding N edges_into_insert parentEdges_def by auto
    finally show ?thesis .
  qed
qed

lemma tracePath_start:
  "tracePath es [s] {} {} = ancestors es {s} \<union> edges_into es (ancestors es {s})"
  using tracePath_char[of "{}" es "[s]" "{}"] by simp

lemma tracePath_no_parent:
  "\<forall>e \<in> set es. target e \<noteq> s \<Longrightarrow> tracePath es [s] {} {} = {s}"
proof -
  assume a: "\<forall>e \<in> set es. target e \<noteq> s"
  then have "filter (\<lambda>e. target e = s) es = []" by (induction es) auto
  then show ?thesis by (simp add: tracePath.simps)
qed

text \<open>
  C7, as amended. For every store and every non-empty identifier \<open>s\<close>, the highlighted
  path after \<^verbatim>\<open>selectNode(s)\<close> is exactly: \<open>s\<close>, every identifier from which \<open>s\<close> is
  reached along edges (so every node found by following edges backwards from \<open>s\<close>),
  and the identifier of every edge whose target is one of these.
\<close>

theorem selectNode_highlights_ancestors:
  "s \<noteq> [] \<Longrightarrow>
   highlightedPath (selectNode (Some s) st) =
     {x. (x, s) \<in> (edge_rel (edges st))\<^sup>*} \<union>
     {id_e e |e. e \<in> set (edges st) \<and> (target e, s) \<in> (edge_rel (edges st))\<^sup>*}"
  by (auto simp add: selectNode_def tracePathToRoot_def tracePath_start ancestors_def
        edges_into_def)

text \<open>The example of the specification: selecting C, and selecting A.\<close>

lemma selectNode_chain_example:
  "highlightedPath (selectNode (Some ''C'') chain_store) = {''C'', ''e2'', ''B'', ''e1'', ''A''} \<and>
   highlightedPath (selectNode (Some ''A'') chain_store) = {''A''}"
  by code_simp

theorem selectNode_highlights_ancestors_witness:
  "''C'' \<noteq> [] \<and>
   {x. (x, ''C'') \<in> (edge_rel (edges chain_store))\<^sup>*} \<union>
     {id_e e |e. e \<in> set (edges chain_store) \<and> (target e, ''C'') \<in> (edge_rel (edges chain_store))\<^sup>*}
   = {''C'', ''e2'', ''B'', ''e1'', ''A''}"
proof -
  have ne: "''C'' \<noteq> []" by simp
  show ?thesis
    using selectNode_highlights_ancestors [OF ne, of "chain_store", symmetric]
      selectNode_chain_example ne
    by (simp only: simp_thms)
qed

text \<open>
  The claim as stated fails for a node whose identifier is the empty string: the test
  \<^verbatim>\<open>if (id)\<close> of \<^verbatim>\<open>selectNode\<close> is false for it and the highlighted path is emptied.
\<close>

theorem selectNode_empty_id_counterexample:
  "'''' \<in> id_n ` set (nodes anonymous_store) \<and>
   '''' \<notin> highlightedPath (selectNode (Some '''') anonymous_store)"
  by (simp add: selectNode_def anonymous_store_def plain_node_def)

section \<open>Unknown identifiers\<close>

text \<open>
  C6, as amended. For an identifier \<open>i\<close> that no node has, \<^verbatim>\<open>updateNode(i, partial)\<close>
  leaves the whole store unchanged. \<^verbatim>\<open>selectNode(i)\<close> raises no error and leaves nodes,
  edges and sandbox state unchanged, but it is not a no-op: it stores \<open>i\<close> as the
  selection (the derived selected node is null) and recomputes the highlighted path
  from \<open>i\<close>: empty when \<open>i\<close> is the empty string, otherwise \<open>i\<close> with whatever reaches it
  along edges, which is just \<open>i\<close> when no edge targets \<open>i\<close>.
\<close>

theorem unknown_id_update_select:
  "i \<notin> id_n ` set (nodes st) \<Longrightarrow>
   updateNode i partial st = st \<and>
   (let st' = selectNode (Some i) st in
      nodes st' = nodes st \<and> edges st' = edges st \<and>
      sandboxMode st' = sandboxMode st \<and> originalState st' = originalState st \<and>
      selectedNodeId st' = Some i \<and>
      selectedNode st' = None \<and>
      highlightedPath st' =
        (if i = [] then {}
         else ancestors (edges st) {i} \<union> edges_into (edges st) (ancestors (edges st) {i})) \<and>
      (i \<noteq> [] \<and> (\<forall>e \<in> set (edges st). target e \<noteq> i) \<longrightarrow> highlightedPath st' = {i}))"
proof -
  assume a: "i \<notin> id_n ` set (nodes st)"
  have "map (\<lambda>n. if id_n n = i then merge n partial else n) (nodes st) = nodes st"
    using a by (intro map_idI) auto
  then have u: "updateNode i partial st = st"
    by (simp add: updateNode_def)
  have f: "find (\<lambda>n. id_n n = i) (nodes st) = None"
    using a by (auto simp: find_None_iff)
  show ?thesis
    using u f tracePath_no_parent[of "edges st" i]
    by (auto simp add: selectNode_def tracePathToRoot_def selectedNode_def Let_def
        tracePath_start)
qed

theorem unknown_id_update_select_witness:
  "''X'' \<notin> id_n ` set (nodes chain_store) \<and>
   updateNode ''X'' [Set_label ''new''] chain_store = chain_store \<and>
   selectedNodeId (selectNode (Some ''X'') chain_store) = Some ''X'' \<and>
   selectedNode (selectNode (Some ''X'') chain_store) = None \<and>
   highlightedPath (selectNode (Some ''X'') chain_store) = {''X''}"
proof -
  have a: "''X'' \<notin> id_n ` set (nodes chain_store)"
    by (simp add: chain_store_def plain_node_def)
  have b: "''X'' \<noteq> [] \<and> (\<forall>e \<in> set (edges chain_store). target e \<noteq> ''X'')"
    by (simp add: chain_store_def plain_edge_def)
  note t = unknown_id_update_select [OF a, of "[Set_label ''new'']", unfolded Let_def]
  from t a b show ?thesis by blast
qed

text \<open>
  The claim as stated fails for \<^verbatim>\<open>selectNode\<close>: selecting an identifier that no node
  has changes the selection and the highlighted path.
\<close>

theorem selectNode_unknown_counterexample:
  "''X'' \<notin> id_n ` set (nodes chain_store) \<and>
   selectedNodeId chain_store = None \<and>
   highlightedPath chain_store = {} \<and>
   selectedNodeId (selectNode (Some ''X'') chain_store) = Some ''X'' \<and>
   highlightedPath (selectNode (Some ''X'') chain_store) = {''X''}"
  by code_simp

section \<open>Loading a payload\<close>

text \<open>
  C9. When the payload fails schema validation, \<^verbatim>\<open>loadDiagram\<close> raises the alert and
  the store is exactly as before the call: nodes, edges, selection, highlighted path
  and sandbox state.
\<close>

theorem loadDiagram_rejects_invalid:
  "DiagramSchema j = None \<Longrightarrow>
   loadDiagram j st =
     (Some ''Invalid JSON format. Please check the console for details.'', st)"
  by (simp add: loadDiagram_def)

lemma invalid_payload_fails: "DiagramSchema invalid_payload = None"
  by (simp add: invalid_payload_def DiagramSchema_def NodeSchema_def property_def
        required_def optional_def)

theorem loadDiagram_rejects_invalid_witness:
  "DiagramSchema invalid_payload = None \<and>
   snd (loadDiagram invalid_payload (selectNode (Some ''C'') chain_store))
     = selectNode (Some ''C'') chain_store"
  using loadDiagram_rejects_invalid [OF invalid_payload_fails,
      of "selectNode (Some ''C'') chain_store"] invalid_payload_fails
  by simp

text \<open>
  C4, as amended. The validator checks the type of every field and never compares
  identifiers. A payload that conforms to the schema is applied whether or not two of
  its nodes share an identifier: the stored nodes carry the identifiers of the payload
  in the payload's order, so no two stored nodes share an identifier exactly when no
  two nodes of the payload do.
\<close>

theorem loadDiagram_keeps_payload_ids:
  "DiagramSchema j = Some (ns, es) \<Longrightarrow>
   fst (loadDiagram j st) = None \<and>
   map id_n (nodes (snd (loadDiagram j st))) = map id_n ns \<and>
   (distinct (map id_n (nodes (snd (loadDiagram j st)))) \<longleftrightarrow> distinct (map id_n ns))"
  by (simp add: loadDiagram_def comp_def)

lemma duplicate_payload_parses:
  "DiagramSchema duplicate_payload
     = Some ([plain_node ''A'' ''first'', plain_node ''A'' ''second''], [])"
  by (simp add: duplicate_payload_def DiagramSchema_def NodeSchema_def property_def
        required_def optional_def plain_node_def)

theorem loadDiagram_keeps_payload_ids_witness:
  "DiagramSchema duplicate_payload
     = Some ([plain_node ''A'' ''first'', plain_node ''A'' ''second''], []) \<and>
   fst (loadDiagram duplicate_payload chain_store) = None \<and>
   map id_n (nodes (snd (loadDiagram duplicate_payload chain_store))) = [''A'', ''A'']"
  using loadDiagram_keeps_payload_ids [OF duplicate_payload_parses, of chain_store]
    duplicate_payload_parses
  by (simp add: plain_node_def)

text \<open>
  The claim as stated fails: a payload with two nodes of identifier A is accepted and
  stored.
\<close>

theorem loadDiagram_duplicate_ids_counterexample:
  "fst (loadDiagram duplicate_payload chain_store) = None \<and>
   map id_n (nodes (snd (loadDiagram duplicate_payload chain_store))) = [''A'', ''A''] \<and>
   \<not> distinct (map id_n (nodes (snd (loadDiagram duplicate_payload chain_store))))"
  by (simp add: loadDiagram_def duplicate_payload_parses plain_node_def)

section \<open>Export and reload\<close>

lemma map_of_present:
  "distinct (map fst kvs) \<Longrightarrow> map_of (present kvs) k = Option.bind (map_of kvs k) (\<lambda>v. v)"
proof (induction kvs)
  case Nil
  show ?case by (simp add: present_def)
next
  case (Cons kv kvs)
  obtain k' v' where kv: "kv = (k', v')" by (cases kv)
  have notin: "map_of kvs k' = None"
    using Cons.prems kv by (simp add: map_of_eq_None_iff)
  have IH: "map_of (present kvs) k = Option.bind (map_of kvs k) (\<lambda>v. v)"
    using Cons by simp
  show ?case
  proof (cases v')
    case None
    then show ?thesis
      using IH notin kv by (auto simp: present_def)
  next
    case (Some a)
    then show ?thesis
      using IH notin kv by (auto simp: present_def)
  qed
qed

lemma optional_string: "optional z_string (map_option JStr x) = Some x"
  by (cases x) (simp_all add: optional_def)

lemma z_number_finite: "finite_number v \<Longrightarrow> z_number (number_json v) = Some v"
  by (cases v rule: finite_number.cases) simp_all

lemma optional_number:
  "finite_field x \<Longrightarrow> optional z_number (map_option number_json x) = Some x"
  by (cases x) (simp_all add: optional_def finite_field_def z_number_finite)

lemma optional_boolean: "optional z_boolean (map_option JBool x) = Some x"
  by (cases x) (simp_all add: optional_def)

lemma z_array_strings: "z_array z_string (JArr (map JStr xs)) = Some xs"
  by (induction xs) simp_all

lemma optional_strings:
  "optional (z_array z_string) (map_option (\<lambda>xs. JArr (map JStr xs)) x) = Some x"
  by (cases x) (simp_all add: optional_def z_array_strings del: z_array.simps)

lemma optional_status:
  "optional z_status (map_option (\<lambda>s. JStr (status_text s)) x) = Some x"
proof (cases x)
  case None
  then show ?thesis by (simp add: optional_def)
next
  case (Some s)
  then show ?thesis by (cases s) (simp_all add: optional_def z_status_def status_text_def)
qed

lemma optional_pillar_two:
  "optional z_pillar_two (map_option (\<lambda>s. JStr (pillar_two_text s)) x) = Some x"
proof (cases x)
  case None
  then show ?thesis by (simp add: optional_def)
next
  case (Some s)
  then show ?thesis
    by (cases s) (simp_all add: optional_def z_pillar_two_def pillar_two_text_def)
qed

lemmas roundtrip_simps =
  map_of_present property_def required_def optional_string optional_number optional_boolean
  optional_strings optional_status optional_pillar_two

text \<open>
  Reading an exported node whose numbers in schema fields are finite gives the node
  without the fields that the schema does not declare.
\<close>

lemma NodeSchema_node_json:
  "exportable_node n \<Longrightarrow>
   NodeSchema (node_json n)
     = Some (n\<lparr>dimension := None, parentId := None, ownershipPercentage_n := None\<rparr>)"
  by (cases n) (simp add: NodeSchema_def node_json_def exportable_node_def roundtrip_simps)

lemma EdgeSchema_edge_json: "exportable_edge e \<Longrightarrow> EdgeSchema (edge_json e) = Some e"
  by (cases e) (simp add: EdgeSchema_def edge_json_def exportable_edge_def roundtrip_simps)

lemma those_map_Some':
  "those (map f xs) = Some (map g xs)" if "\<And>x. x \<in> set xs \<Longrightarrow> f x = Some (g x)"
  using that by (induction xs) simp_all

lemma DiagramSchema_exportDiagram:
  assumes "list_all exportable_node (nodes st)" and "list_all exportable_edge (edges st)"
  shows "DiagramSchema (exportDiagram st)
     = Some (map (\<lambda>n. n\<lparr>dimension := None, parentId := None, ownershipPercentage_n := None\<rparr>)
               (nodes st), edges st)"
proof -
  have n: "those (map (NodeSchema \<circ> node_json) (nodes st))
     = Some (map (\<lambda>n. n\<lparr>dimension := None, parentId := None, ownershipPercentage_n := None\<rparr>)
               (nodes st))"
    using assms(1) by (intro those_map_Some') (simp add: list_all_iff NodeSchema_node_json)
  have "those (map (EdgeSchema \<circ> edge_json) (edges st)) = Some (map (\<lambda>x. x) (edges st))"
    using assms(2) by (intro those_map_Some') (simp add: list_all_iff EdgeSchema_edge_json)
  then have e: "those (map (EdgeSchema \<circ> edge_json) (edges st)) = Some (edges st)"
    by simp
  show ?thesis
    by (simp add: DiagramSchema_def exportDiagram_def property_def required_def n e)
qed

text \<open>
  C8, as amended. For every store whose numbers in the schema fields of nodes and
  edges are finite, loading the exported document succeeds. The loaded nodes are the
  exported nodes in the same order, each with every schema field as it was (the
  identifier among them, and the effective ownership verbatim), except that an empty
  label is replaced by the node's identifier, the dimension is set to 200 by 90 and
  the fields the schema does not declare are dropped; the loaded edges are the
  exported edges. So identifiers and source/target relationships are identical, and
  labels are identical for every node whose label is not empty.
\<close>

theorem export_load_roundtrip:
  "list_all exportable_node (nodes st) \<Longrightarrow>
   list_all exportable_edge (edges st) \<Longrightarrow>
   (let (alert, st') = loadDiagram (exportDiagram st) st0 in
     alert = None \<and>
     nodes st' =
       map (\<lambda>n. n\<lparr>label_n := (if label_n n \<noteq> [] then label_n n else id_n n),
                  dimension := Some (fin 200, fin 90), parentId := None,
                  ownershipPercentage_n := None\<rparr>) (nodes st) \<and>
     edges st' = edges st \<and>
     map id_n (nodes st') = map id_n (nodes st) \<and>
     ((\<forall>n \<in> set (nodes st). label_n n \<noteq> []) \<longrightarrow>
        map label_n (nodes st') = map label_n (nodes st)))"
  by (simp add: loadDiagram_def DiagramSchema_exportDiagram comp_def)

theorem export_load_roundtrip_witness:
  "list_all exportable_node (nodes chain_store) \<and>
   list_all exportable_edge (edges chain_store) \<and>
   map label_n (nodes chain_store) = [''A'', ''B'', ''C''] \<and>
   fst (loadDiagram (exportDiagram chain_store) anonymous_store) = None \<and>
   map id_n (nodes (snd (loadDiagram (exportDiagram chain_store) anonymous_store)))
     = [''A'', ''B'', ''C''] \<and>
   map label_n (nodes (snd (loadDiagram (exportDiagram chain_store) anonymous_store)))
     = [''A'', ''B'', ''C''] \<and>
   edges (snd (loadDiagram (exportDiagram chain_store) anonymous_store)) = edges chain_store"
proof -
  have ns: "list_all exportable_node (nodes chain_store)"
    by (simp add: chain_store_def plain_node_def exportable_node_def finite_field_def)
  have es: "list_all exportable_edge (edges chain_store)"
    by (simp add: chain_store_def plain_edge_def exportable_edge_def finite_field_def)
  show ?thesis
    using export_load_roundtrip [OF ns es, of anonymous_store] ns es
    by (simp add: chain_store_def plain_node_def split: prod.splits)
qed

text \<open>
  A number that is not finite is exported as \<^verbatim>\<open>null\<close>, which the schema refuses: the
  exported document of such a store is rejected on reload.
\<close>

lemma export_load_infinity_rejected:
  "fst (loadDiagram (exportDiagram overflown_store) chain_store)
     = Some ''Invalid JSON format. Please check the console for details.''"
  by (simp add: loadDiagram_def DiagramSchema_def exportDiagram_def NodeSchema_def
        node_json_def present_def property_def required_def optional_def
        overflown_store_def plain_node_def)

text \<open>
  The claim as stated fails for labels: a stored node whose label is the empty string,
  which the schema accepts, comes back with its identifier as label.
\<close>

theorem export_load_empty_label_counterexample:
  "map label_n (nodes unlabelled_store) = [[]] \<and>
   fst (loadDiagram (exportDiagram unlabelled_store) unlabelled_store) = None \<and>
   map label_n (nodes (snd (loadDiagram (exportDiagram unlabelled_store) unlabelled_store)))
     = [''A'']"
proof -
  have ns: "list_all exportable_node (nodes unlabelled_store)"
    by (simp add: unlabelled_store_def plain_node_def exportable_node_def finite_field_def)
  have es: "list_all exportable_edge (edges unlabelled_store)"
    by (simp add: unlabelled_store_def)
  show ?thesis
    by (simp add: loadDiagram_def DiagramSchema_exportDiagram[OF ns es])
       (simp add: unlabelled_store_def plain_node_def)
qed

section \<open>Paths in an acyclic edge list\<close>

lemma paths_from_nonempty: "p \<in> set (paths_from es k x) \<Longrightarrow> p \<noteq> []"
  by (induction k arbitrary: x p) auto

lemma is_path_append:
  "is_path x (p @ q) = (is_path x p \<and> is_path (if p = [] then x else target (last p)) q)"
  by (induction p arbitrary: x) auto

lemma path_in_trancl:
  "is_path x p \<Longrightarrow> set p \<subseteq> set es \<Longrightarrow> p \<noteq> [] \<Longrightarrow> (x, target (last p)) \<in> (edge_rel es)\<^sup>+"
proof (induction p arbitrary: x)
  case Nil
  then show ?case by simp
next
  case (Cons e p)
  have e: "(x, target e) \<in> edge_rel es"
    using Cons.prems by (force simp: edge_rel_def)
  show ?case
  proof (cases "p = []")
    case True
    with e show ?thesis by auto
  next
    case False
    have "(target e, target (last p)) \<in> (edge_rel es)\<^sup>+"
      using Cons.IH[of "target e"] Cons.prems False by simp
    with e False show ?thesis by (simp add: trancl_into_trancl2)
  qed
qed

text \<open>A path of an acyclic edge list has no more edges than the list.\<close>

lemma acyclic_path_bound:
  assumes acyc: "acyclic (edge_rel es)" and path: "is_path x p" and sub: "set p \<subseteq> set es"
  shows "length p \<le> length es"
proof (rule ccontr)
  assume "\<not> length p \<le> length es"
  then have long: "length es < length p" by simp
  have "card (set (map target p)) \<le> card (target ` set es)"
    using sub by (intro card_mono) auto
  also have "\<dots> \<le> card (set es)" by (rule card_image_le) simp
  also have "\<dots> \<le> length es" by (rule card_length)
  finally have "card (set (map target p)) < length (map target p)" using long by simp
  then have "\<not> distinct (map target p)" using distinct_card by fastforce
  then obtain as b bs cs where dec: "map target p = as @ [b] @ bs @ [b] @ cs"
    using not_distinct_decomp by blast
  then obtain p1 r1 where p1: "p = p1 @ r1" "map target p1 = as" "map target r1 = [b] @ bs @ [b] @ cs"
    by (auto simp: map_eq_append_conv)
  then obtain e1 r2 where r1: "r1 = e1 # r2" "target e1 = b" "map target r2 = bs @ [b] @ cs"
    by (auto simp: map_eq_Cons_conv)
  then obtain p2 r3 where r2: "r2 = p2 @ r3" "map target p2 = bs" "map target r3 = [b] @ cs"
    by (auto simp: map_eq_append_conv)
  then obtain e2 p3 where r3: "r3 = e2 # p3" "target e2 = b"
    by (auto simp: map_eq_Cons_conv)
  have p: "p = (p1 @ [e1]) @ (p2 @ [e2]) @ p3"
    using p1 r1 r2 r3 by simp
  have "is_path b ((p2 @ [e2]) @ p3)"
    using path r1(2) unfolding p is_path_append[of x "p1 @ [e1]"] by simp
  then have loop: "is_path b (p2 @ [e2])"
    unfolding is_path_append[of b "p2 @ [e2]"] by simp
  have "set (p2 @ [e2]) \<subseteq> set es" using sub p by auto
  from path_in_trancl[OF loop this] r3(2) have "(b, b) \<in> (edge_rel es)\<^sup>+" by simp
  with acyc show False by (simp add: acyclic_def)
qed

text \<open>\<open>paths_from\<close> lists exactly the paths of at most \<open>k\<close> edges.\<close>

lemma paths_from_complete:
  "set (paths_from es k x) = {p. p \<noteq> [] \<and> length p \<le> k \<and> set p \<subseteq> set es \<and> is_path x p}"
proof (induction k arbitrary: x)
  case 0
  show ?case by auto
next
  case (Suc k)
  show ?case
  proof (rule set_eqI, rule iffI)
    fix p assume "p \<in> set (paths_from es (Suc k) x)"
    then obtain e where e: "e \<in> set es" "source e = x"
      and p: "p = [e] \<or> p \<in> (#) e ` set (paths_from es k (target e))"
      by auto
    from p show "p \<in> {p. p \<noteq> [] \<and> length p \<le> Suc k \<and> set p \<subseteq> set es \<and> is_path x p}"
    proof
      assume "p = [e]" with e show ?thesis by simp
    next
      assume "p \<in> (#) e ` set (paths_from es k (target e))"
      then obtain q where "p = e # q" "q \<in> set (paths_from es k (target e))" by auto
      with e Suc.IH[of "target e"] show ?thesis by auto
    qed
  next
    fix p assume "p \<in> {p. p \<noteq> [] \<and> length p \<le> Suc k \<and> set p \<subseteq> set es \<and> is_path x p}"
    then obtain e q where p: "p = e # q" and len: "length q \<le> k" and sub: "e \<in> set es" "set q \<subseteq> set es"
      and path: "source e = x" "is_path (target e) q"
      by (cases p) auto
    show "p \<in> set (paths_from es (Suc k) x)"
    proof (cases "q = []")
      case True
      with p sub path show ?thesis by auto
    next
      case False
      then have "q \<in> set (paths_from es k (target e))"
        using Suc.IH[of "target e"] len sub path by simp
      with p sub path show ?thesis by auto
    qed
  qed
qed

text \<open>
  So in an acyclic edge list the bound by the number of edges loses no path, and no
  path is listed twice when no edge is.
\<close>

lemma paths_from_all:
  "acyclic (edge_rel es) \<Longrightarrow>
   set (paths_from es (length es) x) = {p. p \<noteq> [] \<and> set p \<subseteq> set es \<and> is_path x p}"
  using acyclic_path_bound[of es x] by (auto simp: paths_from_complete)

lemma paths_from_distinct:
  "distinct es \<Longrightarrow> distinct (paths_from es k x)"
proof (induction k arbitrary: x)
  case 0
  show ?case by simp
next
  case (Suc k)
  let ?out = "filter (\<lambda>e. source e = x) es"
  let ?F = "\<lambda>e. [e] # map ((#) e) (paths_from es k (target e))"
  have heads: "p \<in> set (?F e) \<Longrightarrow> hd p = e" for p e
    by auto
  have each: "distinct (?F e)" for e
    using Suc.IH[OF Suc.prems, of "target e"]
    by (auto simp: distinct_map dest: paths_from_nonempty)
  have "distinct (map ?F ?out)"
    using Suc.prems by (auto simp: distinct_map inj_on_def)
  moreover have "set (?F e) \<inter> set (?F e') = {}" if "?F e \<noteq> ?F e'" for e e'
  proof -
    from that have "e \<noteq> e'" by auto
    with heads[of _ e] heads[of _ e'] show ?thesis by blast
  qed
  ultimately have "distinct (concat (map ?F ?out))"
    using each by (intro distinct_concat) auto
  then show ?case by simp
qed

text \<open>
  Where the arithmetic does not round and the stakes are finite, the share of a path
  is 100 times the product of stake/100 along it.
\<close>

lemma fold_along_exact:
  assumes mul: "\<And>x y. dmul P (Finite x) (Finite y) = Finite (x * y)"
    and div: "\<And>x. ddiv P (Finite x) (Finite 100) = Finite (x / 100)"
  shows "\<forall>e \<in> set p. \<exists>q. stake e = Finite q \<Longrightarrow>
         fold (along P) p (Finite a)
           = Finite (a * prod_list (map (\<lambda>e. rational (stake e) / 100) p))"
proof (induction p arbitrary: a)
  case Nil
  show ?case by simp
next
  case (Cons e p)
  then obtain q where q: "stake e = Finite q" by auto
  have "along P e (Finite a) = Finite (a * q / 100)"
    by (simp add: along_def q mul div)
  moreover have "fold (along P) p (Finite (a * q / 100))
      = Finite (a * q / 100 * prod_list (map (\<lambda>e. rational (stake e) / 100) p))"
    using Cons.prems by (intro Cons.IH) simp
  ultimately show ?case by (simp add: q)
qed

lemma path_share_exact:
  assumes "\<And>x y. dmul P (Finite x) (Finite y) = Finite (x * y)"
    and "\<And>x. ddiv P (Finite x) (Finite 100) = Finite (x / 100)"
    and "\<forall>e \<in> set p. \<exists>q. stake e = Finite q"
  shows "path_share P p = Finite (exact_share p)"
  using fold_along_exact[OF assms(1,2), of p 100] assms(3)
  by (simp add: path_share_def exact_share_def)

section \<open>Crediting nodes\<close>

lemma add_up_append: "add_up P (vs @ ws) t = add_up P ws (add_up P vs t)"
  by (simp add: add_up_def)

lemma credit_id [simp]: "id_n (credit P ds n) = id_n n"
  by (simp add: credit_def)

lemma credit_Nil [simp]: "credit P [] n = n"
  by (simp add: credit_def add_up_def)

lemma credit_append: "credit P ds2 (credit P ds1 n) = credit P (ds1 @ ds2) n"
  by (simp add: credit_def add_up_append)

lemma credit_single:
  "credit P [(i, v)] n =
     (if id_n n = i
      then n\<lparr>effectiveOwnership := Some (Num (dadd P (or_zero (effectiveOwnership n)) v))\<rparr>
      else n)"
  by (simp add: credit_def add_up_def)

lemma credit_untouched: "id_n n \<notin> fst ` set ds \<Longrightarrow> credit P ds n = n"
proof -
  assume "id_n n \<notin> fst ` set ds"
  then have "filter (\<lambda>d. fst d = id_n n) ds = []"
    by (force simp: filter_empty_conv)
  then show ?thesis by (simp add: credit_def add_up_def)
qed

lemma credit_firsts_ids [simp]: "map id_n (credit_firsts P seen ds ns) = map id_n ns"
  by (induction ns arbitrary: seen) simp_all

lemma credit_firsts_length [simp]: "length (credit_firsts P seen ds ns) = length ns"
  by (induction ns arbitrary: seen) simp_all

lemma credit_firsts_Nil [simp]: "credit_firsts P seen [] ns = ns"
  by (induction ns arbitrary: seen) simp_all

lemma credit_firsts_append:
  "credit_firsts P seen ds2 (credit_firsts P seen ds1 ns) = credit_firsts P seen (ds1 @ ds2) ns"
  by (induction ns arbitrary: seen) (simp_all add: credit_append)

lemma credit_firsts_seen:
  "fst ` set ds \<subseteq> seen \<Longrightarrow> credit_firsts P seen ds ns = ns"
proof (induction ns arbitrary: seen)
  case Nil
  show ?case by simp
next
  case (Cons n ns)
  have "credit P ds n = n" if "id_n n \<notin> seen"
    using that Cons.prems by (intro credit_untouched) auto
  moreover have "credit_firsts P (insert (id_n n) seen) ds ns = ns"
    using Cons.prems by (intro Cons.IH) auto
  ultimately show ?case by simp
qed

lemma credit_firsts_nth:
  "i < length ns \<Longrightarrow>
   credit_firsts P seen ds ns ! i =
     (if id_n (ns ! i) \<in> seen \<union> set (map id_n (take i ns)) then ns ! i
      else credit P ds (ns ! i))"
proof (induction ns arbitrary: i seen)
  case Nil
  then show ?case by simp
next
  case (Cons n ns)
  show ?case
  proof (cases i)
    case 0
    then show ?thesis by simp
  next
    case (Suc j)
    then have "j < length ns" using Cons.prems by simp
    from Cons.IH[OF this, of "insert (id_n n) seen"] Suc show ?thesis by simp
  qed
qed

text \<open>
  The assignment of \<^verbatim>\<open>propagateOwnership\<close> credits the first node of the identifier.
\<close>

lemma add_to_first_credit:
  "i \<notin> seen \<Longrightarrow> add_to_first P i v ns = credit_firsts P seen [(i, v)] ns"
proof (induction ns arbitrary: seen)
  case Nil
  show ?case by simp
next
  case (Cons n ns)
  show ?case
  proof (cases "id_n n = i")
    case True
    have rest: "credit_firsts P (insert (id_n n) seen) [(i, v)] ns = ns"
      using True by (intro credit_firsts_seen) simp
    have "credit P [(i, v)] n
          = n\<lparr>effectiveOwnership := Some (Num (dadd P (or_zero (effectiveOwnership n)) v))\<rparr>"
      using True by (simp add: credit_single)
    with True rest Cons.prems show ?thesis by simp
  next
    case False
    then have same: "credit P [(i, v)] n = n" by (simp add: credit_single)
    have "add_to_first P i v ns = credit_firsts P (insert (id_n n) seen) [(i, v)] ns"
      using False Cons.prems by (intro Cons.IH) auto
    with False same show ?thesis by simp
  qed
qed

lemma credits_along_Suc:
  "credits_along P es (Suc k) x a =
     concat (map (\<lambda>e. (target e, along P e a)
                        # credits_along P es k (target e) (along P e a))
                 (filter (\<lambda>e. source e = x) es))"
proof -
  define F where "F = (\<lambda>p. (target (last p), fold (along P) p a))"
  have first: "F [e] = (target e, along P e a)" for e
    by (simp add: F_def)
  have inner: "map (\<lambda>q. F (e # q)) (paths_from es k (target e))
               = credits_along P es k (target e) (along P e a)" for e
    unfolding credits_along_def F_def
    by (rule map_cong[OF refl]) (auto dest: paths_from_nonempty)
  have each: "map F ([e] # map ((#) e) (paths_from es k (target e)))
               = (target e, along P e a)
                   # credits_along P es k (target e) (along P e a)" for e
    by (simp add: comp_def first inner)
  have "credits_along P es (Suc k) x a = map F (paths_from es (Suc k) x)"
    by (simp only: credits_along_def F_def)
  also have "\<dots> = concat (map (\<lambda>e. map F ([e] # map ((#) e) (paths_from es k (target e))))
                 (filter (\<lambda>e. source e = x) es))"
    by (simp only: paths_from.simps map_concat map_map comp_def)
  finally show ?thesis by (simp only: each)
qed

lemma credits_along_targets: "fst ` set (credits_along P es k x a) \<subseteq> target ` set es"
proof -
  have "p \<in> set (paths_from es k x) \<Longrightarrow> target (last p) \<in> target ` set es" for p
    using paths_from_complete[of es k x] by (auto intro!: imageI)
  then show ?thesis by (auto simp: credits_along_def)
qed

section \<open>The propagation\<close>

lemma forEach_fold:
  assumes "\<And>x s. x \<in> set xs \<Longrightarrow> Q s \<Longrightarrow> body x s = Some (f x s)"
    and "\<And>x s. x \<in> set xs \<Longrightarrow> Q s \<Longrightarrow> Q (f x s)"
    and "Q s"
  shows "forEach body xs s = Some (fold f xs s)"
  using assms
proof (induction xs arbitrary: s)
  case Nil
  show ?case by simp
next
  case (Cons x xs)
  have "body x s = Some (f x s)" using Cons.prems by simp
  moreover have "forEach body xs (f x s) = Some (fold f xs (f x s))"
    using Cons.prems by (intro Cons.IH) auto
  ultimately show ?case by simp
qed

lemma fold_credit_firsts:
  "fold (\<lambda>x. credit_firsts P seen (d x)) xs s = credit_firsts P seen (concat (map d xs)) s"
proof (induction xs arbitrary: s)
  case Nil
  show ?case by simp
next
  case (Cons x xs)
  show ?case by (simp add: Cons.IH credit_firsts_append)
qed

lemma find_by_id:
  "i \<in> set (map id_n ns) \<Longrightarrow> \<exists>c. find (\<lambda>n. id_n n = i) ns = Some c \<and> id_n c = i"
  by (induction ns) auto

text \<open>
  When no path from \<open>x\<close> has more than \<open>k\<close> edges, a call with a depth bound above \<open>k\<close>
  returns, and credits every path from \<open>x\<close> to the first node of the identifier at its
  end, in the order of the paths.
\<close>

lemma propagateOwnership_credits:
  assumes targets: "\<forall>e \<in> set es. target e \<in> I"
  shows "\<lbrakk>\<forall>p. is_path x p \<and> set p \<subseteq> set es \<longrightarrow> length p \<le> k; k < depth;
          set (map id_n ns) = I\<rbrakk>
         \<Longrightarrow> propagateOwnership P depth x a es ns
             = Some (credit_firsts P {} (credits_along P es k x a) ns)"
proof (induction k arbitrary: x depth a ns)
  case 0
  then obtain d where d: "depth = Suc d" by (cases depth) auto
  have "filter (\<lambda>e. source e = x) es = []"
  proof (rule ccontr)
    assume "filter (\<lambda>e. source e = x) es \<noteq> []"
    then obtain e where "e \<in> set es" "source e = x"
      by (auto simp: filter_empty_conv)
    then have "is_path x [e] \<and> set [e] \<subseteq> set es" by simp
    with "0.prems"(1) have "length [e] \<le> 0" by blast
    then show False by simp
  qed
  then show ?case by (simp add: d credits_along_def)
next
  case (Suc k)
  then obtain d where d: "depth = Suc d" "k < d" by (cases depth) auto
  let ?out = "filter (\<lambda>e. source e = x) es"
  let ?Q = "\<lambda>s. set (map id_n s) = I"
  let ?d = "\<lambda>e. (target e, along P e a) # credits_along P es k (target e) (along P e a)"
  let ?body = "\<lambda>edge ns.
          case find (\<lambda>n. id_n n = target edge) ns of
            None \<Rightarrow> Some ns
          | Some childNode \<Rightarrow>
              (let directStake = or_zero (ownershipPercentage_e edge);
                   effectiveStake = ddiv P (dmul P a directStake) (Finite 100)
               in propagateOwnership P d (id_n childNode) effectiveStake es
                    (add_to_first P (target edge) effectiveStake ns))"
  have step: "?body e s = Some (credit_firsts P {} (?d e) s)"
    if e: "e \<in> set ?out" and s: "?Q s" for e s
  proof -
    from e have ein: "e \<in> set es" "source e = x" by auto
    with targets s have "target e \<in> set (map id_n s)" by auto
    from find_by_id[OF this] obtain c where c: "find (\<lambda>n. id_n n = target e) s = Some c"
      "id_n c = target e" by blast
    have short: "\<forall>p. is_path (target e) p \<and> set p \<subseteq> set es \<longrightarrow> length p \<le> k"
    proof (intro allI impI)
      fix p assume "is_path (target e) p \<and> set p \<subseteq> set es"
      with ein have "is_path x (e # p) \<and> set (e # p) \<subseteq> set es" by simp
      with Suc.prems(1) have "length (e # p) \<le> Suc k" by blast
      then show "length p \<le> k" by simp
    qed
    define v where "v = along P e a"
    define s1 where "s1 = add_to_first P (target e) v s"
    have s1: "s1 = credit_firsts P {} [(target e, v)] s"
      unfolding s1_def by (rule add_to_first_credit) simp
    have Q1: "set (map id_n s1) = I"
      using s by (simp add: s1)
    have "propagateOwnership P d (target e) v es s1
          = Some (credit_firsts P {} (credits_along P es k (target e) v) s1)"
      by (rule Suc.IH[OF short d(2) Q1])
    also have "credit_firsts P {} (credits_along P es k (target e) v) s1
          = credit_firsts P {} ((target e, v) # credits_along P es k (target e) v) s"
      unfolding s1 by (simp add: credit_firsts_append)
    finally have "propagateOwnership P d (target e) v es s1
          = Some (credit_firsts P {} (?d e) s)"
      by (simp add: v_def)
    moreover have "?body e s = propagateOwnership P d (target e) v es s1"
      using c by (simp add: v_def s1_def along_def stake_def Let_def)
    ultimately show ?thesis by simp
  qed
  have keep: "?Q (credit_firsts P {} (?d e) s)" if "?Q s" for e s
    using that by simp
  have "forEach ?body ?out ns = Some (fold (\<lambda>e. credit_firsts P {} (?d e)) ?out ns)"
    by (rule forEach_fold[where Q = ?Q]) (use step keep Suc.prems in auto)
  then show ?case
    by (simp add: d fold_credit_firsts credits_along_Suc)
qed

section \<open>The loop over the roots\<close>

lemma crown_id [simp]: "id_n (crown n) = id_n n"
  by (simp add: crown_def)

lemma crown_crown [simp]: "crown (crown n) = crown n"
  by (simp add: crown_def)

lemma crown_update_ids [simp]: "map id_n (s[i := crown (s ! i)]) = map id_n s"
proof (cases "i < length s")
  case True
  then have "(map id_n s)[i := id_n (s ! i)] = map id_n s"
    by (metis list_update_id nth_map)
  then show ?thesis by (simp add: map_update)
next
  case False
  then have "length s \<le> i" by simp
  then have "s[i := crown (s ! i)] = s" by (rule list_update_beyond)
  then show ?thesis by (rule arg_cong)
qed

lemma nth_same_id:
  "map id_n t = map id_n s \<Longrightarrow> j < length s \<Longrightarrow> id_n (t ! j) = id_n (s ! j)"
  by (metis length_map nth_map)

lemma credit_firsts_update:
  "i < length s \<Longrightarrow> id_n (s ! i) \<notin> fst ` set ds \<Longrightarrow>
   credit_firsts P seen ds (s[i := crown (s ! i)])
     = (credit_firsts P seen ds s)[i := crown (s ! i)]"
proof (induction s arbitrary: i seen)
  case Nil
  then show ?case by simp
next
  case (Cons n s)
  show ?case
  proof (cases i)
    case 0
    then have "id_n (crown n) \<notin> fst ` set ds" using Cons.prems by simp
    then have "credit P ds (crown n) = crown n" by (rule credit_untouched)
    with 0 show ?thesis by simp
  next
    case (Suc j)
    then have "j < length s" "id_n (s ! j) \<notin> fst ` set ds" using Cons.prems by simp_all
    from Cons.IH[OF this, of "insert (id_n n) seen"] Suc show ?thesis by simp
  qed
qed

lemma credit_firsts_nth_untouched:
  "i < length s \<Longrightarrow> id_n (s ! i) \<notin> fst ` set ds \<Longrightarrow> credit_firsts P seen ds s ! i = s ! i"
  by (simp add: credit_firsts_nth credit_untouched)

lemma fold_crown_length [simp]:
  "length (fold (\<lambda>i s. s[i := crown (s ! i)]) is s) = length s"
  by (induction "is" arbitrary: s) simp_all

lemma fold_crown_ids [simp]:
  "map id_n (fold (\<lambda>i s. s[i := crown (s ! i)]) is s) = map id_n s"
  by (induction "is" arbitrary: s) simp_all

lemma fold_crown_nth:
  "j < length s \<Longrightarrow>
   fold (\<lambda>i s. s[i := crown (s ! i)]) is s ! j = (if j \<in> set is then crown (s ! j) else s ! j)"
proof (induction "is" arbitrary: s)
  case Nil
  show ?case by simp
next
  case (Cons i "is")
  have "j < length (s[i := crown (s ! i)])" using Cons.prems by simp
  from Cons.IH[OF this] Cons.prems show ?case
    by (cases "j = i") (auto simp: nth_list_update)
qed

text \<open>Crowning the roots and crediting commute: no credit goes to a root.\<close>

lemma fold_crown_credit_commute:
  "\<forall>i \<in> set is. i < length s \<and> id_n (s ! i) \<notin> T \<Longrightarrow> fst ` set ds \<subseteq> T \<Longrightarrow>
   fold (\<lambda>i s. s[i := crown (s ! i)]) is (credit_firsts P seen ds s)
     = credit_firsts P seen ds (fold (\<lambda>i s. s[i := crown (s ! i)]) is s)"
proof (induction "is" arbitrary: s)
  case Nil
  show ?case by simp
next
  case (Cons i "is")
  let ?c = "credit_firsts P seen ds s"
  let ?s1 = "s[i := crown (s ! i)]"
  have i: "i < length s" "id_n (s ! i) \<notin> fst ` set ds"
    using Cons.prems by auto
  have "?c[i := crown (?c ! i)] = ?c[i := crown (s ! i)]"
    using i by (simp add: credit_firsts_nth_untouched)
  also have "\<dots> = credit_firsts P seen ds ?s1"
    using i by (simp add: credit_firsts_update)
  finally have head: "?c[i := crown (?c ! i)] = credit_firsts P seen ds ?s1" .
  have rest: "\<forall>j \<in> set is. j < length ?s1 \<and> id_n (?s1 ! j) \<notin> T"
  proof
    fix j assume j: "j \<in> set is"
    then have "j < length s" "id_n (s ! j) \<notin> T" using Cons.prems by auto
    moreover have "id_n (?s1 ! j) = id_n (s ! j)"
      using \<open>j < length s\<close> by (intro nth_same_id) simp_all
    ultimately show "j < length ?s1 \<and> id_n (?s1 ! j) \<notin> T" by simp
  qed
  show ?case
    using Cons.IH[OF rest Cons.prems(2)] by (simp add: head)
qed

lemma fold_roots:
  assumes "\<forall>i \<in> set is. i < length s \<and> id_n (s ! i) \<notin> target ` set es"
  shows "fold (\<lambda>i s. credit_firsts P seen (credits_along P es k (r i) a)
                       (s[i := crown (s ! i)])) is s
         = credit_firsts P seen (concat (map (\<lambda>i. credits_along P es k (r i) a) is))
             (fold (\<lambda>i s. s[i := crown (s ! i)]) is s)"
  using assms
proof (induction "is" arbitrary: s)
  case Nil
  show ?case by simp
next
  case (Cons i "is")
  let ?D = "credits_along P es k (r i) a"
  let ?Ds = "concat (map (\<lambda>i. credits_along P es k (r i) a) is)"
  let ?s1 = "s[i := crown (s ! i)]"
  let ?c1 = "credit_firsts P seen ?D ?s1"
  have on_s1: "\<forall>j \<in> set is. j < length ?s1 \<and> id_n (?s1 ! j) \<notin> target ` set es"
  proof
    fix j assume j: "j \<in> set is"
    then have "j < length s" "id_n (s ! j) \<notin> target ` set es" using Cons.prems by auto
    moreover have "id_n (?s1 ! j) = id_n (s ! j)"
      using \<open>j < length s\<close> by (intro nth_same_id) simp_all
    ultimately show "j < length ?s1 \<and> id_n (?s1 ! j) \<notin> target ` set es" by simp
  qed
  have on_c1: "\<forall>j \<in> set is. j < length ?c1 \<and> id_n (?c1 ! j) \<notin> target ` set es"
  proof
    fix j assume j: "j \<in> set is"
    then have "j < length s" "id_n (s ! j) \<notin> target ` set es" using Cons.prems by auto
    moreover have "id_n (?c1 ! j) = id_n (s ! j)"
      using \<open>j < length s\<close> by (intro nth_same_id) simp_all
    ultimately show "j < length ?c1 \<and> id_n (?c1 ! j) \<notin> target ` set es" by simp
  qed
  have "fold (\<lambda>i s. credit_firsts P seen (credits_along P es k (r i) a)
                      (s[i := crown (s ! i)])) (i # is) s
        = credit_firsts P seen ?Ds (fold (\<lambda>i s. s[i := crown (s ! i)]) is ?c1)"
    using Cons.IH[OF on_c1] by simp
  also have "fold (\<lambda>i s. s[i := crown (s ! i)]) is ?c1
        = credit_firsts P seen ?D (fold (\<lambda>i s. s[i := crown (s ! i)]) is ?s1)"
    by (rule fold_crown_credit_commute[OF on_s1 credits_along_targets])
  finally show ?case by (simp add: credit_firsts_append)
qed

lemma root_positions_nodes:
  "map ((!) ns) (root_positions ns es) = filter (is_root es) ns"
proof -
  have "filter (is_root es) (map ((!) ns) [0..<length ns])
        = map ((!) ns) (filter (is_root es \<circ> (!) ns) [0..<length ns])"
    by (rule filter_map)
  then show ?thesis
    by (simp add: root_positions_def is_root_def comp_def map_nth)
qed

lemma root_positions_iff:
  "i \<in> set (root_positions ns es) \<longleftrightarrow> i < length ns \<and> is_root es (ns ! i)"
  by (auto simp: root_positions_def is_root_def)

lemma is_root_iff: "is_root es n \<longleftrightarrow> id_n n \<notin> target ` set es"
  by (force simp: is_root_def list_ex_iff image_iff)

lemma fold_crown_roots:
  "fold (\<lambda>i s. s[i := crown (s ! i)]) (root_positions ns es) ns
   = map (\<lambda>n. if is_root es n then crown n else n) ns"
  by (rule nth_equalityI) (simp_all add: fold_crown_nth root_positions_iff)

lemma credits_of_roots:
  "concat (map (\<lambda>i. credits_along P es (length es) (id_n (ns ! i)) (Finite 100))
             (root_positions ns es))
   = map (\<lambda>p. (target (last p), path_share P p)) (root_paths ns es)"
proof -
  have "concat (map (\<lambda>i. credits_along P es (length es) (id_n (ns ! i)) (Finite 100))
             (root_positions ns es))
        = concat (map (\<lambda>n. credits_along P es (length es) (id_n n) (Finite 100))
                   (map ((!) ns) (root_positions ns es)))"
    by (simp add: comp_def)
  also have "\<dots> = concat (map (\<lambda>n. credits_along P es (length es) (id_n n) (Finite 100))
                   (filter (is_root es) ns))"
    by (simp only: root_positions_nodes)
  also have "\<dots> = map (\<lambda>p. (target (last p), path_share P p)) (root_paths ns es)"
    by (simp add: root_paths_def credits_along_def path_share_def map_concat comp_def)
  finally show ?thesis .
qed

lemma root_paths_targets:
  "fst ` set (map (\<lambda>p. (target (last p), path_share P p)) (root_paths ns es))
     \<subseteq> target ` set es"
proof -
  have "target (last p) \<in> target ` set es" if "p \<in> set (root_paths ns es)" for p
  proof -
    from that obtain x where "p \<in> set (paths_from es (length es) x)"
      by (auto simp: root_paths_def)
    then have "p \<noteq> []" "set p \<subseteq> set es"
      using paths_from_complete[of es "length es" x] by auto
    then have "last p \<in> set es" using last_in_set by blast
    then show ?thesis by (rule imageI)
  qed
  then show ?thesis by auto
qed

text \<open>What the crowned and credited node list holds at a position.\<close>

lemma settled_node:
  assumes i: "i < length ns"
  shows "credit_firsts P {} (map (\<lambda>p. (target (last p), path_share P p)) (root_paths ns es))
           (map (\<lambda>n. if is_root es n then crown n else n) ns) ! i
         = (ns ! i)\<lparr>effectiveOwnership := ownership_after P ns es i\<rparr>"
proof -
  let ?D = "map (\<lambda>p. (target (last p), path_share P p)) (root_paths ns es)"
  let ?c = "map (\<lambda>n. if is_root es n then crown n else n) ns"
  have ids: "map id_n ?c = map id_n ns" by (simp add: comp_def)
  have ci: "?c ! i = (if is_root es (ns ! i) then crown (ns ! i) else ns ! i)"
    using i by simp
  have idi: "id_n (?c ! i) = id_n (ns ! i)" using i by simp
  have seen: "set (map id_n (take i ?c)) = set (map id_n (take i ns))"
    using arg_cong[OF ids, of "\<lambda>xs. set (take i xs)"] by (simp only: take_map)
  have nth: "credit_firsts P {} ?D ?c ! i =
      (if id_n (ns ! i) \<in> set (map id_n (take i ns)) then ?c ! i else credit P ?D (?c ! i))"
    using credit_firsts_nth[of i ?c P "{}" ?D] i by (simp only: idi seen) simp
  show ?thesis
  proof (cases "is_root es (ns ! i)")
    case True
    then have "id_n (crown (ns ! i)) \<notin> fst ` set ?D"
      using root_paths_targets[of P ns es] by (auto simp: is_root_iff)
    then have "credit P ?D (crown (ns ! i)) = crown (ns ! i)" by (rule credit_untouched)
    with True nth ci show ?thesis
      by (simp add: ownership_after_def crown_def)
  next
    case False
    have vs: "map snd (filter (\<lambda>d. fst d = id_n (ns ! i)) ?D)
              = map (path_share P) (paths_to ns es (id_n (ns ! i)))"
      by (simp add: paths_to_def filter_map comp_def)
    have "credit P ?D (ns ! i)
          = (ns ! i)\<lparr>effectiveOwnership :=
               add_up P (map (path_share P) (paths_to ns es (id_n (ns ! i))))
                 (effectiveOwnership (ns ! i))\<rparr>"
      unfolding credit_def vs ..
    with False nth ci show ?thesis
      by (simp add: ownership_after_def)
  qed
qed

text \<open>
  For an acyclic edge list whose targets are all nodes, the computation returns under
  every depth bound above the number of edges, and leaves at every position the
  ownership by paths.
\<close>

lemma calculateEffectiveOwnership_after:
  assumes acyc: "acyclic (edge_rel es)"
    and targets: "\<forall>e \<in> set es. target e \<in> set (map id_n ns)"
    and depth: "length es < depth"
  shows "calculateEffectiveOwnership P depth ns es
         = Some (map (\<lambda>i. (ns ! i)\<lparr>effectiveOwnership := ownership_after P ns es i\<rparr>)
                   [0..<length ns])"
proof -
  let ?r = "\<lambda>i. id_n (ns ! i)"
  let ?D = "\<lambda>i. credits_along P es (length es) (?r i) (Finite 100)"
  let ?f = "\<lambda>i s. credit_firsts P {} (?D i) (s[i := crown (s ! i)])"
  let ?Q = "\<lambda>s. map id_n s = map id_n ns"
  let ?body = "\<lambda>i s. propagateOwnership P depth (id_n (s ! i)) (Finite 100) es
                 (s[i := (s ! i)\<lparr>effectiveOwnership := Some (fin 100)\<rparr>])"
  have short: "\<forall>p. is_path x p \<and> set p \<subseteq> set es \<longrightarrow> length p \<le> length es" for x
    using acyclic_path_bound[OF acyc] by blast
  have step: "?body i s = Some (?f i s)"
    if i: "i \<in> set (root_positions ns es)" and s: "?Q s" for i s
  proof -
    from i have il: "i < length ns" by (simp add: root_positions_iff)
    have ids: "id_n (s ! i) = ?r i"
      using s il by (rule nth_same_id)
    have "set (map id_n (s[i := crown (s ! i)])) = set (map id_n ns)"
      using s by simp
    then have "propagateOwnership P depth (?r i) (Finite 100) es (s[i := crown (s ! i)])
          = Some (credit_firsts P {} (?D i) (s[i := crown (s ! i)]))"
      by (rule propagateOwnership_credits[OF targets short depth])
    then show ?thesis by (simp add: ids crown_def)
  qed
  have keep: "?Q (?f i s)" if "?Q s" for i s
    using that by simp
  have roots: "\<forall>i \<in> set (root_positions ns es). i < length ns \<and> ?r i \<notin> target ` set es"
    by (simp add: root_positions_iff is_root_iff)
  have "calculateEffectiveOwnership P depth ns es = Some (fold ?f (root_positions ns es) ns)"
    unfolding calculateEffectiveOwnership_def
    by (rule forEach_fold[where Q = ?Q]) (use step keep in auto)
  also have "fold ?f (root_positions ns es) ns
      = credit_firsts P {} (map (\<lambda>p. (target (last p), path_share P p)) (root_paths ns es))
          (map (\<lambda>n. if is_root es n then crown n else n) ns)"
    unfolding fold_roots[of "root_positions ns es" ns es P "{}" "length es" ?r "Finite 100",
        OF roots] credits_of_roots fold_crown_roots ..
  also have "\<dots> = map (\<lambda>i. (ns ! i)\<lparr>effectiveOwnership := ownership_after P ns es i\<rparr>)
                   [0..<length ns]"
    by (rule nth_equalityI) (simp_all add: settled_node)
  finally show ?thesis .
qed

section \<open>Ownership without rounding\<close>

text \<open>
  Where the arithmetic does not round and the stakes are finite, the ownership by
  paths of the first node of an identifier that is reached from a root is the sum,
  over the paths from the root nodes to it, of 100 times the product of stake/100
  along the path. The arithmetic of the examples is of that kind.
\<close>

lemma add_up_exact:
  assumes add: "\<And>x y. dadd P (Finite x) (Finite y) = Finite (x + y)"
  shows "add_up P (map Finite (q # qs)) None = Some (fin (sum_list (q # qs)))"
proof -
  have step: "fold (\<lambda>v t. Some (Num (dadd P (or_zero t) v))) (map Finite qs) (Some (fin a))
              = Some (fin (a + sum_list qs))" for a qs
    by (induction qs arbitrary: a) (simp_all add: add add.assoc)
  show ?thesis
    by (simp add: add_up_def add step)
qed

lemma root_paths_edges: "p \<in> set (root_paths ns es) \<Longrightarrow> p \<noteq> [] \<and> set p \<subseteq> set es"
  using paths_from_complete[of es "length es"] by (auto simp: root_paths_def)

lemma ownership_by_paths_exact:
  assumes mul: "\<And>x y. dmul P (Finite x) (Finite y) = Finite (x * y)"
    and div: "\<And>x. ddiv P (Finite x) (Finite 100) = Finite (x / 100)"
    and add: "\<And>x y. dadd P (Finite x) (Finite y) = Finite (x + y)"
    and stakes: "\<forall>e \<in> set es. \<exists>q. stake e = Finite q"
    and nonroot: "\<not> is_root es (ns ! i)"
    and first: "id_n (ns ! i) \<notin> set (map id_n (take i ns))"
    and reached: "paths_to ns es (id_n (ns ! i)) \<noteq> []"
  shows "ownership_by_paths P ns es i
         = Some (fin (sum_list (map exact_share (paths_to ns es (id_n (ns ! i))))))"
proof -
  let ?ps = "paths_to ns es (id_n (ns ! i))"
  have "path_share P p = Finite (exact_share p)" if "p \<in> set ?ps" for p
  proof -
    from that have "set p \<subseteq> set es"
      using root_paths_edges[of p ns es] by (simp add: paths_to_def)
    with stakes have "\<forall>e \<in> set p. \<exists>q. stake e = Finite q" by blast
    then show ?thesis by (rule path_share_exact[OF mul div])
  qed
  then have shares: "map (path_share P) ?ps = map Finite (map exact_share ?ps)"
    by simp
  from reached obtain q qs where qs: "map exact_share ?ps = q # qs"
    by (cases ?ps) auto
  show ?thesis
    using nonroot first add_up_exact[OF add, of q qs]
    by (simp only: ownership_by_paths_def shares qs if_False)
qed

lemma whole_numbers_exact:
  "dmul whole_numbers (Finite x) (Finite y) = Finite (x * y)"
  "ddiv whole_numbers (Finite x) (Finite 100) = Finite (x / 100)"
  "dadd whole_numbers (Finite x) (Finite y) = Finite (x + y)"
  by (simp_all add: whole_numbers_def unrounded_def)

section \<open>Effective ownership after a flat load\<close>

lemma flat_nodes_ids: "map id_n (flat_nodes entities) = map id_n entities"
  by (simp add: flat_nodes_def flat_node_def comp_def)

lemma flat_nodes_ownership:
  "i < length entities \<Longrightarrow>
   effectiveOwnership (flat_nodes entities ! i) = effectiveOwnership (entities ! i)"
  by (simp add: flat_nodes_def flat_node_def)

lemma flat_edges_targets:
  "e \<in> set (flat_edges P entities) \<Longrightarrow> target e \<in> set (map id_n entities)"
  unfolding flat_edges_def
  by (induction entities) (auto simp: flat_edge_def split: option.splits if_splits)

text \<open>
  C1, as amended. For every flat entity list whose synthesized edge set is acyclic and
  whose entities come with no effective ownership of their own, the load returns
  (under every depth bound above the number of edges), stores the synthesized edges,
  and gives the node at every position its ownership by paths, in the double
  arithmetic of the platform: a root node gets exactly 100; for an identifier that an
  edge targets, the first node with the identifier gets the shares of all paths that
  lead to the identifier from the root nodes, added one by one in the order of the
  traversal (each addition being \<^verbatim>\<open>(total || 0) + share\<close>), and gets nothing when
  there is no such path; a later node with the same identifier gets nothing. The share
  of a path is what 100 becomes along it, times the stake and divided by 100 at every
  edge; where nothing is rounded the total is the sum over the paths of 100 times the
  product of stake/100.
\<close>

theorem loadFlatEntityList_ownership:
  assumes "acyclic (edge_rel (flat_edges P entities))"
    and "list_all (\<lambda>ent. effectiveOwnership ent = None) entities"
    and "length (flat_edges P entities) < depth"
  shows "loadFlatEntityList P depth entities st =
     Some (st\<lparr>nodes :=
                map (\<lambda>i. (flat_nodes entities ! i)\<lparr>effectiveOwnership :=
                             ownership_by_paths P (flat_nodes entities)
                               (flat_edges P entities) i\<rparr>)
                    [0..<length entities],
              edges := flat_edges P entities\<rparr>)"
proof -
  let ?ns = "flat_nodes entities"
  let ?es = "flat_edges P entities"
  have len: "length ?ns = length entities"
    by (simp add: flat_nodes_def)
  have t: "\<forall>e \<in> set ?es. target e \<in> set (map id_n ?ns)"
    using flat_edges_targets by (simp only: flat_nodes_ids) blast
  have none: "effectiveOwnership (?ns ! i) = None" if "i < length entities" for i
    using that assms(2) by (simp add: flat_nodes_ownership list_all_length)
  have same: "ownership_after P ?ns ?es i = ownership_by_paths P ?ns ?es i"
    if "i < length entities" for i
    using none[OF that] by (simp add: ownership_after_def ownership_by_paths_def)
  have "map (\<lambda>i. (?ns ! i)\<lparr>effectiveOwnership := ownership_after P ?ns ?es i\<rparr>)
          [0..<length ?ns]
        = map (\<lambda>i. (?ns ! i)\<lparr>effectiveOwnership := ownership_by_paths P ?ns ?es i\<rparr>)
            [0..<length entities]"
    unfolding len by (rule map_cong[OF refl]) (simp add: same)
  then show ?thesis
    by (simp add: loadFlatEntityList_def Let_def
          calculateEffectiveOwnership_after[OF assms(1) t assms(3)])
qed

theorem loadFlatEntityList_ownership_witness:
  "acyclic (edge_rel (flat_edges whole_numbers joint_list)) \<and>
   list_all (\<lambda>ent. effectiveOwnership ent = None) joint_list \<and>
   length (flat_edges whole_numbers joint_list) < 4 \<and>
   map_option ownerships (loadFlatEntityList whole_numbers 4 joint_list chain_store)
     = Some [(''R1'', Some (fin 100)), (''R2'', Some (fin 100)), (''X'', Some (fin 100)),
             (''X'', None), (''Y'', None)]"
proof -
  have a: "acyclic (edge_rel (flat_edges whole_numbers joint_list))" by code_simp
  have n: "list_all (\<lambda>ent. effectiveOwnership ent = None) joint_list" by code_simp
  have l: "length (flat_edges whole_numbers joint_list) < 4" by code_simp
  have v: "map (\<lambda>i. (id_n (flat_nodes joint_list ! i),
                     ownership_by_paths whole_numbers (flat_nodes joint_list)
                       (flat_edges whole_numbers joint_list) i))
             [0..<length joint_list]
           = [(''R1'', Some (fin 100)), (''R2'', Some (fin 100)), (''X'', Some (fin 100)),
              (''X'', None), (''Y'', None)]"
    by code_simp
  have "map_option ownerships (loadFlatEntityList whole_numbers 4 joint_list chain_store)
        = Some [(''R1'', Some (fin 100)), (''R2'', Some (fin 100)), (''X'', Some (fin 100)),
                (''X'', None), (''Y'', None)]"
    unfolding loadFlatEntityList_ownership [OF a n l, of chain_store]
    using v by (simp add: ownerships_def comp_def)
  with a n l show ?thesis by blast
qed

text \<open>
  The claim as stated fails on the joint venture list with W, whose edge set is
  acyclic. The second node X has two incoming edges of 50 percent from two roots, and
  the paths to it sum to 100, but it ends with no effective ownership: the
  contributions go to the first node with the identifier. The node Y is not a root and
  no path leads to it; it ends with no effective ownership, not with the empty sum 0.
  The node W ends with 57 where its only path gives 50.
\<close>

theorem loadFlatEntityList_joint_counterexample:
  "acyclic (edge_rel (flat_edges whole_numbers carrying_list)) \<and>
   map_option ownerships (loadFlatEntityList whole_numbers 5 carrying_list chain_store)
     = Some [(''R1'', Some (fin 100)), (''R2'', Some (fin 100)), (''X'', Some (fin 100)),
             (''X'', None), (''Y'', None), (''W'', Some (fin 57))] \<and>
   path_sums (flat_nodes carrying_list) (flat_edges whole_numbers carrying_list)
     = [(''X'', 100), (''X'', 100), (''Y'', 0), (''W'', 50)]"
  by (intro conjI; code_simp)

section \<open>Selection after a load\<close>

lemma loadDiagram_clears_selection:
  "DiagramSchema j = Some (ns, es) \<Longrightarrow>
   selectedNodeId (snd (loadDiagram j st)) = None \<and>
   highlightedPath (snd (loadDiagram j st)) = {}"
  by (simp add: loadDiagram_def)

lemma loadFlatEntityList_keeps_selection:
  "loadFlatEntityList P depth entities st = Some st' \<Longrightarrow>
   selectedNodeId st' = selectedNodeId st \<and> highlightedPath st' = highlightedPath st"
  by (auto simp: loadFlatEntityList_def Let_def split: option.splits)

text \<open>
  C5. A load of the explicit form clears the selection and the highlighted path; a
  load of the flat form replaces nodes and edges and leaves both as they were. Here C
  is selected in the chain A, B, C and the holding list is loaded: the nodes are then
  R, X, Y, Z, while the selection is still C and the highlighted path still holds the
  identifiers of the chain.
\<close>

theorem loadFlatEntityList_stale_selection:
  "map_option (map id_n \<circ> nodes)
     (loadFlatEntityList whole_numbers 4 holding_list (selectNode (Some ''C'') chain_store))
     = Some [''R'', ''X'', ''Y'', ''Z''] \<and>
   map_option selectedNodeId
     (loadFlatEntityList whole_numbers 4 holding_list (selectNode (Some ''C'') chain_store))
     = Some (Some ''C'') \<and>
   map_option highlightedPath
     (loadFlatEntityList whole_numbers 4 holding_list (selectNode (Some ''C'') chain_store))
     = Some {''C'', ''e2'', ''B'', ''e1'', ''A''}"
  by (intro conjI; code_simp)

end
